theory Spec2Isabelle
  imports Main "HOL-Library.Word"
begin

unbundle bit_operations_syntax

section \<open>Host arithmetic\<close>

text \<open>
  The claim evaluator works on JavaScript numbers. The grid positions and claim values of
  the game are integers far below \<open>2 ^ 53\<close>, where number arithmetic is exact, so a
  number is modelled as an \<open>int\<close>. On integers \<^verbatim>\<open>Math.floor(a / 3)\<close> is the floor
  quotient, which is \<open>div\<close> on \<open>int\<close>. The remainder operator \<^verbatim>\<open>%\<close> is not \<open>mod\<close>: its
  result takes the sign of the dividend.
\<close>

definition js_rem :: "int \<Rightarrow> int \<Rightarrow> int" where
  \<comment> \<open>\<^verbatim>\<open>a % b\<close> on integer-valued numbers, \<open>b \<noteq> 0\<close> (the source only divides by 3)\<close>
  "js_rem a b = sgn a * (\<bar>a\<bar> mod \<bar>b\<bar>)"

section \<open>Claim evaluator (module \<^verbatim>\<open>utils/zkProof\<close>)\<close>

text \<open>
  \<^verbatim>\<open>throw new Error(msg)\<close> is the only way the evaluator fails; the error carries its
  message. The other errors are the ones the host raises in the byte codec below.
\<close>

datatype error = Error string | SyntaxError | TypeError | RangeError

definition InvalidPosition :: error where
  "InvalidPosition = Error ''Position must be between 1 and 9''"

text \<open>
  \<^verbatim>\<open>type ClaimType = 'row' | 'column' | 'adjacent'\<close> is a string at run time, and the
  \<^verbatim>\<open>switch\<close> has a \<^verbatim>\<open>default\<close> branch for every other string; the claim type is
  therefore a string here.
\<close>

definition verifyClaimLocally :: "int \<Rightarrow> string \<Rightarrow> int \<Rightarrow> error + bool" where
  "verifyClaimLocally position claimType claimValue =
     (if position < 1 \<or> position > 9 then Inl InvalidPosition
      else
        let row = (position - 1) div 3;
            col = js_rem (position - 1) 3
        in if claimType = ''row'' then Inr (row = claimValue)
           else if claimType = ''column'' then Inr (col = claimValue)
           else if claimType = ''adjacent'' then
             (let otherRow = (claimValue - 1) div 3;
                  otherCol = js_rem (claimValue - 1) 3;
                  rowDiff = \<bar>row - otherRow\<bar>;
                  colDiff = \<bar>col - otherCol\<bar>
              in Inr ((rowDiff = 1 \<and> colDiff = 0) \<or> (rowDiff = 0 \<and> colDiff = 1)))
           else Inr False)"

subsection \<open>The grid geometry of the specification\<close>

text \<open>
  The data model of the specification: a position is a cell of the 3 by 3 grid, row-major
  and 1-indexed, with \<open>row = \<lfloor>(pos - 1) / 3\<rfloor>\<close> and \<open>col = (pos - 1) mod 3\<close>; two cells are
  adjacent when their taxicab distance is 1.
\<close>

definition spec_row :: "int \<Rightarrow> int" where
  "spec_row pos = (pos - 1) div 3"

definition spec_col :: "int \<Rightarrow> int" where
  "spec_col pos = (pos - 1) mod 3"

definition spec_taxicab :: "int \<Rightarrow> int \<Rightarrow> int" where
  "spec_taxicab p q = \<bar>spec_row p - spec_row q\<bar> + \<bar>spec_col p - spec_col q\<bar>"


text \<open>
  The expressions the evaluator applies to \<^verbatim>\<open>position\<close> (lines 125-126) and again to
  \<^verbatim>\<open>claimValue\<close> (lines 135-136).
\<close>

definition grid_row :: "int \<Rightarrow> int" where
  "grid_row n = (n - 1) div 3"

definition grid_col :: "int \<Rightarrow> int" where
  "grid_col n = js_rem (n - 1) 3"

section \<open>Byte codec (the blockchain service)\<close>

type_synonym byte = "8 word"

subsection \<open>\<^verbatim>\<open>BigInt(string)\<close>\<close>

text \<open>
  The host's conversion of a string to a BigInt: white space is trimmed at both ends, the
  empty string is 0, a decimal literal may carry one sign, the prefixes \<^verbatim>\<open>0x\<close>, \<^verbatim>\<open>0o\<close>
  and \<^verbatim>\<open>0b\<close> select another radix (without a sign), and everything else raises a
  SyntaxError. A string is a list of 8-bit characters here, so of the white space of the
  host only the code points below 256 appear.
\<close>

definition is_ws :: "char \<Rightarrow> bool" where
  "is_ws c = (of_char c \<in> {9, 10, 11, 12, 13, 32, 160 :: nat})"

definition trim_ws :: "string \<Rightarrow> string" where
  "trim_ws s = rev (dropWhile is_ws (rev (dropWhile is_ws s)))"

definition digit_of :: "char \<Rightarrow> nat option" where
  "digit_of c =
     (let n = of_char c :: nat
      in if 48 \<le> n \<and> n \<le> 57 then Some (n - 48)
         else if 97 \<le> n \<and> n \<le> 102 then Some (n - 87)
         else if 65 \<le> n \<and> n \<le> 70 then Some (n - 55)
         else None)"

fun parse_radix :: "nat \<Rightarrow> string \<Rightarrow> nat \<Rightarrow> nat option" where
  "parse_radix r [] acc = Some acc"
| "parse_radix r (c # cs) acc =
     (case digit_of c of
        None \<Rightarrow> None
      | Some d \<Rightarrow> if d < r then parse_radix r cs (acc * r + d) else None)"

definition of_digits :: "nat \<Rightarrow> string \<Rightarrow> error + int" where
  "of_digits r ds =
     (if ds = [] then Inl SyntaxError
      else case parse_radix r ds 0 of
             None \<Rightarrow> Inl SyntaxError
           | Some n \<Rightarrow> Inr (int n))"

fun radix_prefix :: "string \<Rightarrow> (nat \<times> string) option" where
  "radix_prefix (c0 # c1 # ds) =
     (if c0 \<noteq> CHR ''0'' then None
      else if c1 = CHR ''x'' \<or> c1 = CHR ''X'' then Some (16, ds)
      else if c1 = CHR ''o'' \<or> c1 = CHR ''O'' then Some (8, ds)
      else if c1 = CHR ''b'' \<or> c1 = CHR ''B'' then Some (2, ds)
      else None)"
| "radix_prefix _ = None"

definition BigInt :: "string \<Rightarrow> error + int" where
  "BigInt s =
     (let t = trim_ws s
      in case t of
           [] \<Rightarrow> Inr 0
         | c # ds \<Rightarrow>
             (case radix_prefix t of
                Some (r, ds') \<Rightarrow> of_digits r ds'
              | None \<Rightarrow>
                  if c = CHR ''+'' then of_digits 10 ds
                  else if c = CHR ''-'' then map_sum id uminus (of_digits 10 ds)
                  else of_digits 10 t))"

subsection \<open>\<^verbatim>\<open>decimalToBytes32\<close>\<close>

text \<open>
  The loop \<^verbatim>\<open>for (let i = 31; i >= 0; i--)\<close>: the first argument is \<open>i + 1\<close>, so that the
  loop ends at 0. On a BigInt \<^verbatim>\<open>&\<close> and \<^verbatim>\<open>>>\<close> work on the infinite two's complement, as
  \<open>AND\<close> and \<open>drop_bit\<close> do on \<open>int\<close>.
\<close>

fun decimalToBytes32_loop :: "nat \<Rightarrow> byte list \<Rightarrow> int \<Rightarrow> byte list" where
  "decimalToBytes32_loop 0 bytes num = bytes"
| "decimalToBytes32_loop (Suc i) bytes num =
     decimalToBytes32_loop i (bytes[i := word_of_int (num AND 0xFF)]) (drop_bit 8 num)"

definition decimalToBytes32 :: "string \<Rightarrow> error + byte list" where
  "decimalToBytes32 decimal =
     (case BigInt decimal of
        Inl e \<Rightarrow> Inl e
      | Inr num \<Rightarrow> Inr (decimalToBytes32_loop 32 (replicate 32 0) num))"

subsection \<open>Curve points\<close>

text \<open>
  \<^verbatim>\<open>point[i]\<close> beyond the end of an array is \<^verbatim>\<open>undefined\<close>, and both uses the source
  makes of it (\<^verbatim>\<open>BigInt(undefined)\<close> and \<^verbatim>\<open>undefined[0]\<close>) raise a TypeError.
\<close>

definition index :: "'a list \<Rightarrow> nat \<Rightarrow> error + 'a" where
  "index xs i = (if i < length xs then Inr (xs ! i) else Inl TypeError)"

definition then_do :: "error + 'a \<Rightarrow> ('a \<Rightarrow> error + 'b) \<Rightarrow> error + 'b" where
  "then_do m f = (case m of Inl e \<Rightarrow> Inl e | Inr x \<Rightarrow> f x)"

text \<open>
  \<^verbatim>\<open>result.set(src, offset)\<close> on a typed array: the bytes of \<^verbatim>\<open>src\<close> overwrite
  \<^verbatim>\<open>result\<close> from \<^verbatim>\<open>offset\<close> on; a source that does not fit raises a RangeError.
\<close>

definition set_at :: "byte list \<Rightarrow> byte list \<Rightarrow> nat \<Rightarrow> error + byte list" where
  "set_at result src offset =
     (if offset + length src > length result then Inl RangeError
      else Inr (take offset result @ src @ drop (offset + length src) result))"

definition g1PointToBytes :: "string list \<Rightarrow> error + byte list" where
  "g1PointToBytes point =
     then_do (then_do (index point 0) decimalToBytes32) (\<lambda>x.
     then_do (then_do (index point 1) decimalToBytes32) (\<lambda>y.
     then_do (set_at (replicate 64 0) x 0) (\<lambda>result.
     set_at result y 32)))"

definition g2PointToBytes :: "string list list \<Rightarrow> error + byte list" where
  "g2PointToBytes point =
     then_do (then_do (then_do (index point 0) (\<lambda>p. index p 0)) decimalToBytes32) (\<lambda>xReal.
     then_do (then_do (then_do (index point 0) (\<lambda>p. index p 1)) decimalToBytes32) (\<lambda>xImag.
     then_do (then_do (then_do (index point 1) (\<lambda>p. index p 0)) decimalToBytes32) (\<lambda>yReal.
     then_do (then_do (then_do (index point 1) (\<lambda>p. index p 1)) decimalToBytes32) (\<lambda>yImag.
     then_do (set_at (replicate 128 0) xImag 0) (\<lambda>r1.
     then_do (set_at r1 xReal 32) (\<lambda>r2.
     then_do (set_at r2 yImag 64) (\<lambda>r3.
     set_at r3 yReal 96)))))))"

text \<open>The proof as the prover emits it, and as the contract takes it.\<close>

record SnarkjsProof =
  pi_a :: "string list"
  pi_b :: "string list list"
  pi_c :: "string list"
  protocol :: string
  curve :: string

record Groth16Proof =
  a :: "byte list"
  b :: "byte list"
  c :: "byte list"

definition convertSnarkjsProofToContract :: "SnarkjsProof \<Rightarrow> error + Groth16Proof" where
  "convertSnarkjsProofToContract proof =
     then_do (g1PointToBytes (pi_a proof)) (\<lambda>pa.
     then_do (g2PointToBytes (pi_b proof)) (\<lambda>pb.
     then_do (g1PointToBytes (pi_c proof)) (\<lambda>pc.
     Inr \<lparr>a = pa, b = pb, c = pc\<rparr>)))"

subsection \<open>The byte layout of the specification\<close>

text \<open>
  The unsigned integer a string of decimal digits denotes, and its big-endian encoding in
  32 bytes: byte \<open>i\<close> is the base-256 digit of weight \<open>256 ^ (31 - i)\<close>.
\<close>

definition is_decimal :: "string \<Rightarrow> bool" where
  "is_decimal s = (s \<noteq> [] \<and> (\<forall>c \<in> set s. 48 \<le> (of_char c :: nat) \<and> (of_char c :: nat) \<le> 57))"

definition decimal_value :: "string \<Rightarrow> nat" where
  "decimal_value s = (\<Sum>i < length s. (of_char (s ! i) - 48) * 10 ^ (length s - 1 - i))"

definition spec_bytes32 :: "int \<Rightarrow> byte list" where
  "spec_bytes32 n = map (\<lambda>i. word_of_int (n div 256 ^ (31 - i))) [0..<32]"

definition spec_be_value :: "byte list \<Rightarrow> nat" where
  "spec_be_value bs = foldl (\<lambda>acc b. 256 * acc + unat b) 0 bs"

section \<open>Proof orchestration (module \<^verbatim>\<open>utils/zkProof\<close>)\<close>

definition CLAIM_TYPE_MAP :: "string \<Rightarrow> int option" where
  "CLAIM_TYPE_MAP = [''row'' \<mapsto> 0, ''column'' \<mapsto> 1, ''adjacent'' \<mapsto> 2]"

definition WASM_PATH :: string where
  "WASM_PATH = ''/circuits/divine_wrath.wasm''"

definition ZKEY_PATH :: string where
  "ZKEY_PATH = ''/circuits/divine_wrath_final.zkey''"

record FullProveResult =
  proof' :: SnarkjsProof
  publicSignals :: "string list"

record ClaimProof = FullProveResult +
  isTrue :: bool

text \<open>
  The prover \<^verbatim>\<open>snarkjs.groth16.fullProve\<close> is not part of the repository: it is a
  parameter, a function of the circuit inputs and the two artifact paths that returns a
  proof or fails. The inputs are the object literal of the source, key by key, where
  \<open>None\<close> is \<^verbatim>\<open>undefined\<close> (the value of \<^verbatim>\<open>CLAIM_TYPE_MAP[claimType]\<close> on a string that
  is no claim type). Awaiting the prover is the sequencing of \<open>then_do\<close>; the log lines
  and the timing are left out.
\<close>

type_synonym circuit_inputs = "(string \<times> int option) list"

type_synonym prover = "circuit_inputs \<Rightarrow> string \<Rightarrow> string \<Rightarrow> error + FullProveResult"

definition generateClaimProof :: "prover \<Rightarrow> int \<Rightarrow> string \<Rightarrow> int \<Rightarrow> error + ClaimProof" where
  "generateClaimProof fullProve position claimType claimValue =
     then_do (verifyClaimLocally position claimType claimValue) (\<lambda>isTrue.
       let inputs = [(''position'', Some position),
                     (''claimType'', CLAIM_TYPE_MAP claimType),
                     (''claimValue'', Some claimValue),
                     (''expectedResult'', Some (if isTrue then 1 else 0))]
       in then_do (fullProve inputs WASM_PATH ZKEY_PATH) (\<lambda>res.
            Inr \<lparr>proof' = proof' res, publicSignals = publicSignals res, isTrue = isTrue\<rparr>))"

section \<open>Proof transport (module \<^verbatim>\<open>utils/zkProof\<close>)\<close>

text \<open>
  \<^verbatim>\<open>serializeProof\<close> and \<^verbatim>\<open>deserializeProof\<close> are \<^verbatim>\<open>JSON.stringify\<close> and
  \<^verbatim>\<open>JSON.parse\<close> of the host. Their texts and the strings inside a value are
  sequences of 16-bit code units. A value is what \<^verbatim>\<open>JSON.parse\<close> can return; an object
  is the list of its properties in the order the host enumerates them. The type \<open>'n\<close>
  stands for the numbers of the host, whose conversions to and from text are parameters
  (\<^verbatim>\<open>Number::toString\<close> for the printer, the value of a numeric literal for the parser).
\<close>

type_synonym code_unit = "16 word"
type_synonym jstring = "code_unit list"

definition js :: "string \<Rightarrow> jstring" where
  "js s = map of_char s"

datatype 'n json =
    JNull
  | JBool bool
  | JNumber 'n
  | JString jstring
  | JArray "'n json list"
  | JObject "(jstring \<times> 'n json) list"

abbreviation QUOTE :: code_unit where "QUOTE \<equiv> 0x22"
abbreviation BACKSLASH :: code_unit where "BACKSLASH \<equiv> 0x5C"
abbreviation COMMA :: code_unit where "COMMA \<equiv> 0x2C"
abbreviation COLON :: code_unit where "COLON \<equiv> 0x3A"
abbreviation LBRACKET :: code_unit where "LBRACKET \<equiv> 0x5B"
abbreviation RBRACKET :: code_unit where "RBRACKET \<equiv> 0x5D"
abbreviation LBRACE :: code_unit where "LBRACE \<equiv> 0x7B"
abbreviation RBRACE :: code_unit where "RBRACE \<equiv> 0x7D"

subsection \<open>\<^verbatim>\<open>JSON.stringify\<close>\<close>

text \<open>
  \<^verbatim>\<open>QuoteJSONString\<close>: the two-character escapes, \<^verbatim>\<open>\uXXXX\<close> in lower-case
  hexadecimal for the other control characters and for a surrogate that is not part of a
  pair, every other code unit as it is. Without an indentation argument the elements of
  an array and the members of an object are joined by commas.
\<close>

definition hex_digit :: "nat \<Rightarrow> code_unit" where
  "hex_digit n = (if n < 10 then of_nat (48 + n) else of_nat (87 + n))"

definition unicode_escape :: "code_unit \<Rightarrow> jstring" where
  "unicode_escape u =
     (let n = unat u
      in [BACKSLASH, 0x75, hex_digit (n div 4096), hex_digit (n div 256 mod 16),
          hex_digit (n div 16 mod 16), hex_digit (n mod 16)])"

definition is_lead :: "code_unit \<Rightarrow> bool" where
  "is_lead u = (0xD800 \<le> u \<and> u \<le> 0xDBFF)"

definition is_trail :: "code_unit \<Rightarrow> bool" where
  "is_trail u = (0xDC00 \<le> u \<and> u \<le> 0xDFFF)"

fun quote_units :: "jstring \<Rightarrow> jstring" where
  "quote_units [] = []"
| "quote_units (u # us) =
     (if u = 0x08 then [BACKSLASH, 0x62] @ quote_units us
      else if u = 0x09 then [BACKSLASH, 0x74] @ quote_units us
      else if u = 0x0A then [BACKSLASH, 0x6E] @ quote_units us
      else if u = 0x0C then [BACKSLASH, 0x66] @ quote_units us
      else if u = 0x0D then [BACKSLASH, 0x72] @ quote_units us
      else if u = QUOTE then [BACKSLASH, QUOTE] @ quote_units us
      else if u = BACKSLASH then [BACKSLASH, BACKSLASH] @ quote_units us
      else if u < 0x20 then unicode_escape u @ quote_units us
      else if is_lead u then
        (case us of
           [] \<Rightarrow> unicode_escape u
         | t # ts \<Rightarrow> if is_trail t then u # t # quote_units ts
                     else unicode_escape u @ quote_units us)
      else if is_trail u then unicode_escape u @ quote_units us
      else u # quote_units us)"

definition QuoteJSONString :: "jstring \<Rightarrow> jstring" where
  "QuoteJSONString s = QUOTE # quote_units s @ [QUOTE]"

fun join_comma :: "jstring list \<Rightarrow> jstring" where
  "join_comma [] = []"
| "join_comma [x] = x"
| "join_comma (x # y # ys) = x @ COMMA # join_comma (y # ys)"

fun stringify :: "('n \<Rightarrow> jstring) \<Rightarrow> 'n json \<Rightarrow> jstring" where
  "stringify f JNull = js ''null''"
| "stringify f (JBool v) = (if v then js ''true'' else js ''false'')"
| "stringify f (JNumber n) = f n"
| "stringify f (JString s) = QuoteJSONString s"
| "stringify f (JArray vs) = LBRACKET # join_comma (map (stringify f) vs) @ [RBRACKET]"
| "stringify f (JObject ps) =
     LBRACE # join_comma (map (\<lambda>kv. QuoteJSONString (fst kv) @ COLON # stringify f (snd kv)) ps)
       @ [RBRACE]"

subsection \<open>\<^verbatim>\<open>JSON.parse\<close>\<close>

text \<open>
  A recursive-descent parser of the JSON grammar. White space is space, tab, line feed
  and carriage return. A string ends at the first unescaped quote; a control character
  inside it is a SyntaxError. A numeric literal is scanned as the grammar has it (sign,
  integer part without leading zero, fraction, exponent).
\<close>

definition is_json_ws :: "code_unit \<Rightarrow> bool" where
  "is_json_ws u = (u = 0x20 \<or> u = 0x09 \<or> u = 0x0A \<or> u = 0x0D)"

definition skip_ws :: "jstring \<Rightarrow> jstring" where
  "skip_ws s = dropWhile is_json_ws s"

definition hex_value :: "code_unit \<Rightarrow> nat option" where
  "hex_value u =
     (let n = unat u
      in if 48 \<le> n \<and> n \<le> 57 then Some (n - 48)
         else if 97 \<le> n \<and> n \<le> 102 then Some (n - 87)
         else if 65 \<le> n \<and> n \<le> 70 then Some (n - 55)
         else None)"

definition hex4 :: "code_unit \<Rightarrow> code_unit \<Rightarrow> code_unit \<Rightarrow> code_unit \<Rightarrow> code_unit option" where
  "hex4 h1 h2 h3 h4 =
     (case (hex_value h1, hex_value h2, hex_value h3, hex_value h4) of
        (Some d1, Some d2, Some d3, Some d4) \<Rightarrow> Some (of_nat (d1 * 4096 + d2 * 256 + d3 * 16 + d4))
      | _ \<Rightarrow> None)"

definition simple_escape :: "code_unit \<Rightarrow> code_unit option" where
  "simple_escape e =
     (if e = QUOTE then Some QUOTE
      else if e = BACKSLASH then Some BACKSLASH
      else if e = 0x2F then Some 0x2F
      else if e = 0x62 then Some 0x08
      else if e = 0x66 then Some 0x0C
      else if e = 0x6E then Some 0x0A
      else if e = 0x72 then Some 0x0D
      else if e = 0x74 then Some 0x09
      else None)"

fun parse_string :: "jstring \<Rightarrow> jstring \<Rightarrow> (jstring \<times> jstring) option" where
  "parse_string [] acc = None"
| "parse_string (u # us) acc =
     (if u = QUOTE then Some (acc, us)
      else if u = BACKSLASH then
        (case us of
           [] \<Rightarrow> None
         | e # r \<Rightarrow>
             if e = 0x75 then
               (case r of
                  h1 # h2 # h3 # h4 # r' \<Rightarrow>
                    (case hex4 h1 h2 h3 h4 of
                       None \<Rightarrow> None
                     | Some x \<Rightarrow> parse_string r' (acc @ [x]))
                | _ \<Rightarrow> None)
             else
               (case simple_escape e of
                  None \<Rightarrow> None
                | Some x \<Rightarrow> parse_string r (acc @ [x])))
      else if u < 0x20 then None
      else parse_string us (acc @ [u]))"

definition is_digit :: "code_unit \<Rightarrow> bool" where
  "is_digit u = (0x30 \<le> u \<and> u \<le> 0x39)"

definition scan_digits :: "jstring \<Rightarrow> (jstring \<times> jstring) option" where
  "scan_digits s =
     (if takeWhile is_digit s = [] then None
      else Some (takeWhile is_digit s, dropWhile is_digit s))"

definition scan_int :: "jstring \<Rightarrow> (jstring \<times> jstring) option" where
  "scan_int s =
     (case s of
        [] \<Rightarrow> None
      | u # r \<Rightarrow> if u = 0x30 then Some ([u], r) else scan_digits s)"

definition scan_frac :: "jstring \<Rightarrow> (jstring \<times> jstring) option" where
  "scan_frac s =
     (case s of
        [] \<Rightarrow> Some ([], s)
      | u # r \<Rightarrow>
          if u = 0x2E then map_option (\<lambda>(ds, r'). (u # ds, r')) (scan_digits r)
          else Some ([], s))"

definition scan_sign :: "jstring \<Rightarrow> jstring \<times> jstring" where
  "scan_sign s =
     (case s of
        [] \<Rightarrow> ([], s)
      | u # r \<Rightarrow> if u = 0x2B \<or> u = 0x2D then ([u], r) else ([], s))"

definition scan_exp :: "jstring \<Rightarrow> (jstring \<times> jstring) option" where
  "scan_exp s =
     (case s of
        [] \<Rightarrow> Some ([], s)
      | u # r \<Rightarrow>
          if u = 0x65 \<or> u = 0x45 then
            (let (sg, r') = scan_sign r
             in map_option (\<lambda>(ds, r''). (u # sg @ ds, r'')) (scan_digits r'))
          else Some ([], s))"

definition scan_number :: "jstring \<Rightarrow> (jstring \<times> jstring) option" where
  "scan_number s =
     (let (sg, r0) = (case s of [] \<Rightarrow> ([], s) | u # r \<Rightarrow> if u = 0x2D then ([u], r) else ([], s))
      in case scan_int r0 of
           None \<Rightarrow> None
         | Some (ip, r1) \<Rightarrow>
             (case scan_frac r1 of
                None \<Rightarrow> None
              | Some (fp, r2) \<Rightarrow>
                  (case scan_exp r2 of
                     None \<Rightarrow> None
                   | Some (ep, r3) \<Rightarrow> Some (sg @ ip @ fp @ ep, r3))))"

fun strip_prefix :: "jstring \<Rightarrow> jstring \<Rightarrow> jstring option" where
  "strip_prefix [] s = Some s"
| "strip_prefix (x # xs) [] = None"
| "strip_prefix (x # xs) (u # us) = (if x = u then strip_prefix xs us else None)"

text \<open>
  The properties of an object: \<^verbatim>\<open>JSON.parse\<close> defines them in the order of the text. A
  name that is already there keeps its place and takes the new value; an array index
  (a canonical numeric string up to \<open>2 ^ 32 - 2\<close>) is enumerated before the other names,
  in numeric order; every other name is enumerated in the order of creation.
\<close>

definition index_value :: "jstring \<Rightarrow> int" where
  "index_value k = foldl (\<lambda>n u. 10 * n + (uint u - 48)) 0 k"

definition is_array_index :: "jstring \<Rightarrow> bool" where
  "is_array_index k =
     (k \<noteq> [] \<and> list_all is_digit k \<and> (if hd k = 0x30 then length k = 1 else True)
      \<and> index_value k \<le> 4294967294)"

definition obj_put :: "(jstring \<times> 'v) list \<Rightarrow> jstring \<Rightarrow> 'v \<Rightarrow> (jstring \<times> 'v) list" where
  "obj_put props k v =
     (if k \<in> fst ` set props then map (\<lambda>kv. if fst kv = k then (k, v) else kv) props
      else if is_array_index k then
        takeWhile (\<lambda>kv. is_array_index (fst kv) \<and> index_value (fst kv) < index_value k) props
          @ (k, v) # dropWhile (\<lambda>kv. is_array_index (fst kv) \<and> index_value (fst kv) < index_value k) props
      else props @ [(k, v)])"

text \<open>
  The three mutually recursive parsers take fuel: every call consumes one unit. The
  entry point gives twice the length of the text plus one, which is never used up
  (\<open>JSON_parse_fuel\<close> below).
\<close>

fun parse_value :: "(jstring \<Rightarrow> 'n) \<Rightarrow> nat \<Rightarrow> jstring \<Rightarrow> ('n json \<times> jstring) option"
  and parse_elements :: "(jstring \<Rightarrow> 'n) \<Rightarrow> nat \<Rightarrow> jstring \<Rightarrow> 'n json list \<Rightarrow> ('n json \<times> jstring) option"
  and parse_members :: "(jstring \<Rightarrow> 'n) \<Rightarrow> nat \<Rightarrow> jstring \<Rightarrow> (jstring \<times> 'n json) list \<Rightarrow> ('n json \<times> jstring) option"
where
  "parse_value g 0 s = None"
| "parse_value g (Suc n) s =
     (case skip_ws s of
        [] \<Rightarrow> None
      | u # r \<Rightarrow>
          if u = LBRACE then
            (case skip_ws r of
               [] \<Rightarrow> None
             | u' # r' \<Rightarrow> if u' = RBRACE then Some (JObject [], r') else parse_members g n r [])
          else if u = LBRACKET then
            (case skip_ws r of
               [] \<Rightarrow> None
             | u' # r' \<Rightarrow> if u' = RBRACKET then Some (JArray [], r') else parse_elements g n r [])
          else if u = QUOTE then map_option (\<lambda>(str, r'). (JString str, r')) (parse_string r [])
          else if u = 0x6E then map_option (Pair JNull) (strip_prefix (js ''null'') (u # r))
          else if u = 0x74 then map_option (Pair (JBool True)) (strip_prefix (js ''true'') (u # r))
          else if u = 0x66 then map_option (Pair (JBool False)) (strip_prefix (js ''false'') (u # r))
          else map_option (\<lambda>(lit, r'). (JNumber (g lit), r')) (scan_number (u # r)))"
| "parse_elements g 0 s acc = None"
| "parse_elements g (Suc n) s acc =
     (case parse_value g n s of
        None \<Rightarrow> None
      | Some (v, r) \<Rightarrow>
          (case skip_ws r of
             [] \<Rightarrow> None
           | u # r' \<Rightarrow>
               if u = COMMA then parse_elements g n r' (acc @ [v])
               else if u = RBRACKET then Some (JArray (acc @ [v]), r')
               else None))"
| "parse_members g 0 s props = None"
| "parse_members g (Suc n) s props =
     (case skip_ws s of
        [] \<Rightarrow> None
      | q # r \<Rightarrow>
          if q \<noteq> QUOTE then None
          else
            (case parse_string r [] of
               None \<Rightarrow> None
             | Some (k, r1) \<Rightarrow>
                 (case skip_ws r1 of
                    [] \<Rightarrow> None
                  | cl # r2 \<Rightarrow>
                      if cl \<noteq> COLON then None
                      else
                        (case parse_value g n r2 of
                           None \<Rightarrow> None
                         | Some (v, r3) \<Rightarrow>
                             (case skip_ws r3 of
                                [] \<Rightarrow> None
                              | u # r4 \<Rightarrow>
                                  if u = COMMA then parse_members g n r4 (obj_put props k v)
                                  else if u = RBRACE then Some (JObject (obj_put props k v), r4)
                                  else None)))))"

definition JSON_parse :: "(jstring \<Rightarrow> 'n) \<Rightarrow> jstring \<Rightarrow> error + 'n json" where
  "JSON_parse g s =
     (case parse_value g (2 * length s + 1) s of
        None \<Rightarrow> Inl SyntaxError
      | Some (v, r) \<Rightarrow> if skip_ws r = [] then Inr v else Inl SyntaxError)"

definition JSON_stringify :: "('n \<Rightarrow> jstring) \<Rightarrow> 'n json \<Rightarrow> jstring" where
  "JSON_stringify f v = stringify f v"

text \<open>
  The values that carry no number and whose objects have distinct names, none of them an
  array index; and the fuel that parsing the text of a value takes.
\<close>

fun plain :: "'n json \<Rightarrow> bool" where
  "plain JNull = True"
| "plain (JBool v) = True"
| "plain (JNumber n) = False"
| "plain (JString s) = True"
| "plain (JArray vs) = (\<forall>v \<in> set vs. plain v)"
| "plain (JObject ps) =
     (distinct (map fst ps)
      \<and> (\<forall>kv \<in> set ps. \<not> is_array_index (fst kv) \<and> plain (snd kv)))"

fun fuel_of :: "'n json \<Rightarrow> nat" where
  "fuel_of (JArray vs) = Suc (sum_list (map (\<lambda>v. Suc (fuel_of v)) vs))"
| "fuel_of (JObject ps) = Suc (sum_list (map (\<lambda>kv. Suc (fuel_of (snd kv))) ps))"
| "fuel_of _ = 1"

subsection \<open>Proofs in transit\<close>

text \<open>
  The object the prover returns for a proof, with the properties of the
  \<^verbatim>\<open>Groth16Proof\<close> interface in the order of their declaration. The type annotations
  of the two functions are erased at run time: both work on any value.
\<close>

definition proof_value :: "SnarkjsProof \<Rightarrow> 'n json" where
  "proof_value p =
     JObject
       [(js ''pi_a'', JArray (map (\<lambda>s. JString (js s)) (pi_a p))),
        (js ''pi_b'', JArray (map (\<lambda>row. JArray (map (\<lambda>s. JString (js s)) row)) (pi_b p))),
        (js ''pi_c'', JArray (map (\<lambda>s. JString (js s)) (pi_c p))),
        (js ''protocol'', JString (js (protocol p))),
        (js ''curve'', JString (js (curve p)))]"

definition serializeProof :: "('n \<Rightarrow> jstring) \<Rightarrow> 'n json \<Rightarrow> jstring" where
  "serializeProof Number_toString proof = JSON_stringify Number_toString proof"

definition deserializeProof :: "(jstring \<Rightarrow> 'n) \<Rightarrow> jstring \<Rightarrow> error + 'n json" where
  "deserializeProof StringToNumber serialized = JSON_parse StringToNumber serialized"

definition example_proof :: SnarkjsProof where
  "example_proof =
     \<lparr>pi_a = [''1'', ''2'', ''1''], pi_b = [[''3'', ''4''], [''1'', ''2''], [''1'', ''0'']],
      pi_c = [''4'', ''3'', ''1''], protocol = ''groth16'', curve = ''bn128''\<rparr>"

text \<open>
  A stand-in for the prover in the examples: whatever the inputs, it returns one fixed
  proof of the right shape with the public signal 0.
\<close>

definition constant_prover :: prover where
  "constant_prover inputs wasm zkey = Inr \<lparr>proof' = example_proof, publicSignals = [''0'']\<rparr>"

section \<open>Properties of the claim evaluator\<close>

lemma js_rem_nonneg: "0 \<le> n \<Longrightarrow> js_rem n 3 = n mod 3"
  by (cases "n = 0") (simp_all add: js_rem_def)

lemma adjacent_formula:
  fixes r1 r2 c1 c2 :: int
  shows "((\<bar>r1 - r2\<bar> = 1 \<and> c1 = c2) \<or> (r1 = r2 \<and> \<bar>c1 - c2\<bar> = 1))
           = (\<bar>r1 - r2\<bar> + \<bar>c1 - c2\<bar> = 1)"
  by arith

lemma verifyClaimLocally_row:
  "1 \<le> p \<Longrightarrow> p \<le> 9 \<Longrightarrow> verifyClaimLocally p ''row'' v = Inr (spec_row p = v)"
  by (simp add: verifyClaimLocally_def spec_row_def Let_def)

lemma verifyClaimLocally_column:
  "1 \<le> p \<Longrightarrow> p \<le> 9 \<Longrightarrow> verifyClaimLocally p ''column'' v = Inr (spec_col p = v)"
  by (simp add: verifyClaimLocally_def spec_col_def Let_def js_rem_nonneg)

lemma verifyClaimLocally_adjacent_grid:
  "1 \<le> p \<Longrightarrow> p \<le> 9 \<Longrightarrow>
     verifyClaimLocally p ''adjacent'' v =
       Inr (\<bar>grid_row p - grid_row v\<bar> + \<bar>grid_col p - grid_col v\<bar> = 1)"
  by (simp add: verifyClaimLocally_def grid_row_def grid_col_def Let_def adjacent_formula)

lemma grid_eq_spec: "1 \<le> q \<Longrightarrow> grid_row q = spec_row q \<and> grid_col q = spec_col q"
  by (simp add: grid_row_def grid_col_def spec_row_def spec_col_def js_rem_nonneg)

lemma verifyClaimLocally_adjacent:
  "1 \<le> p \<Longrightarrow> p \<le> 9 \<Longrightarrow> 1 \<le> q \<Longrightarrow>
     verifyClaimLocally p ''adjacent'' q = Inr (spec_taxicab p q = 1)"
  by (simp add: verifyClaimLocally_adjacent_grid grid_eq_spec spec_taxicab_def)

text \<open>
  Adjacency is symmetric on the grid (the symmetry property of the specification's test
  list).
\<close>

lemma verifyClaimLocally_adjacent_sym:
  "1 \<le> p \<Longrightarrow> p \<le> 9 \<Longrightarrow> 1 \<le> q \<Longrightarrow> q \<le> 9 \<Longrightarrow>
   verifyClaimLocally p ''adjacent'' q = verifyClaimLocally q ''adjacent'' p"
  by (simp add: verifyClaimLocally_adjacent_grid) arith

text \<open>
  Below 1 the remainder of the host and \<open>mod\<close> part ways: for the claim value 0 the source
  computes the column \<open>-1\<close>, where \<open>(0 - 1) mod 3 = 2\<close>. So cell 3 is not adjacent to the
  value 0 for the evaluator, although the taxicab formula read with \<open>mod\<close> gives distance 1.
\<close>

lemma verifyClaimLocally_rem_not_mod:
  "verifyClaimLocally 3 ''adjacent'' 0 = Inr False \<and> spec_taxicab 3 0 = 1"
  by (simp add: verifyClaimLocally_def Let_def js_rem_def spec_taxicab_def spec_row_def spec_col_def)

text \<open>
  Claim C3. For positions \<open>p\<close> and claim values \<open>q\<close> on the grid, an adjacent claim is
  true exactly when the taxicab distance of the two cells is 1; the centre 5 is adjacent
  to 2 and not to the diagonal neighbour 1.
\<close>
theorem verifyClaimLocally_adjacent_taxicab:
  "(1 \<le> p \<and> p \<le> 9 \<and> 1 \<le> q \<and> q \<le> 9 \<longrightarrow>
      verifyClaimLocally p ''adjacent'' q = Inr (spec_taxicab p q = 1))
   \<and> verifyClaimLocally 5 ''adjacent'' 2 = Inr True
   \<and> verifyClaimLocally 5 ''adjacent'' 1 = Inr False"
  by (simp add: verifyClaimLocally_adjacent spec_taxicab_def spec_row_def spec_col_def)

theorem verifyClaimLocally_adjacent_taxicab_witness:
  "(1::int) \<le> 6 \<and> (6::int) \<le> 9 \<and> (1::int) \<le> 9 \<and> (9::int) \<le> 9
   \<and> spec_taxicab 6 9 = 1 \<and> verifyClaimLocally 6 ''adjacent'' 9 = Inr True
   \<and> spec_taxicab 6 8 = 2 \<and> verifyClaimLocally 6 ''adjacent'' 8 = Inr False"
  using verifyClaimLocally_adjacent_taxicab [of 6 9] verifyClaimLocally_adjacent_taxicab [of 6 8]
  by (simp add: spec_taxicab_def spec_row_def spec_col_def)

text \<open>
  Claim C4. For a position on the grid and a claim value in \<open>[0, 2]\<close>, a row claim is true
  exactly when \<open>\<lfloor>(p - 1) / 3\<rfloor>\<close> is the value and a column claim exactly when
  \<open>(p - 1) mod 3\<close> is; cell 5 is in row 1 and not in row 0.
\<close>
theorem verifyClaimLocally_row_column:
  "(1 \<le> p \<and> p \<le> 9 \<and> 0 \<le> v \<and> v \<le> 2 \<longrightarrow>
      verifyClaimLocally p ''row'' v = Inr (spec_row p = v)
      \<and> verifyClaimLocally p ''column'' v = Inr (spec_col p = v))
   \<and> verifyClaimLocally 5 ''row'' 1 = Inr True
   \<and> verifyClaimLocally 5 ''row'' 0 = Inr False"
  by (simp add: verifyClaimLocally_row verifyClaimLocally_column spec_row_def spec_col_def)

theorem verifyClaimLocally_row_column_witness:
  "(1::int) \<le> 8 \<and> (8::int) \<le> 9 \<and> (0::int) \<le> 2 \<and> (2::int) \<le> 2
   \<and> verifyClaimLocally 8 ''row'' 2 = Inr True
   \<and> verifyClaimLocally 8 ''column'' 2 = Inr False"
  using verifyClaimLocally_row_column [of 8 2]
  by (simp add: spec_row_def spec_col_def)

text \<open>
  Claim C9. Whatever the claim type and value, a position outside \<open>[1, 9]\<close> makes the
  evaluator fail with the invalid-position error, and a position inside never does: the
  evaluator returns a boolean there.
\<close>
theorem verifyClaimLocally_position_check:
  "(p < 1 \<or> 9 < p \<longrightarrow> verifyClaimLocally p ct v = Inl InvalidPosition)
   \<and> (1 \<le> p \<and> p \<le> 9 \<longrightarrow> (\<exists>t. verifyClaimLocally p ct v = Inr t))"
  by (auto simp add: verifyClaimLocally_def Let_def)

theorem verifyClaimLocally_position_check_witness:
  "verifyClaimLocally 0 ''row'' 0 = Inl InvalidPosition
   \<and> verifyClaimLocally 10 ''adjacent'' 9 = Inl InvalidPosition
   \<and> (\<exists>t. verifyClaimLocally 9 ''column'' 2 = Inr t)"
  using verifyClaimLocally_position_check [of 0 "''row''" 0]
    verifyClaimLocally_position_check [of 10 "''adjacent''" 9]
    verifyClaimLocally_position_check [of 9 "''column''" 2]
  by simp

text \<open>
  Claim C5 says that a claim type outside the three variants makes the evaluator fail.
  The \<^verbatim>\<open>default\<close> branch of the source returns \<^verbatim>\<open>false\<close> instead: on the centre cell
  the unknown type \<^verbatim>\<open>diagonal\<close> is answered with a boolean, not with an error.
\<close>
theorem verifyClaimLocally_unknown_type_returns:
  "verifyClaimLocally 5 ''diagonal'' 1 = Inr False"
  by (simp add: verifyClaimLocally_def Let_def)

text \<open>
  Claim C5, amended. For a position on the grid, a claim type that is none of
  \<^verbatim>\<open>row\<close>, \<^verbatim>\<open>column\<close> and \<^verbatim>\<open>adjacent\<close> is answered with \<^verbatim>\<open>false\<close>, whatever the claim
  value; no error is raised.
\<close>
theorem verifyClaimLocally_unknown_type:
  "1 \<le> p \<Longrightarrow> p \<le> 9 \<Longrightarrow> ct \<noteq> ''row'' \<Longrightarrow> ct \<noteq> ''column'' \<Longrightarrow> ct \<noteq> ''adjacent'' \<Longrightarrow>
     verifyClaimLocally p ct v = Inr False"
  by (simp add: verifyClaimLocally_def Let_def)

theorem verifyClaimLocally_unknown_type_witness:
  "verifyClaimLocally 7 ''Row'' 2 = Inr False"
  using verifyClaimLocally_unknown_type [of 7 "''Row''" 2] by simp

text \<open>
  Claim C10. For a position on the grid an adjacent claim never fails, whatever integer
  the claim value is: the evaluator returns the boolean of the row and column difference
  formula, computed on the value as on a position (with the remainder of the host for
  the column). From 1 upwards this is the taxicab formula of the specification, and no
  cell is adjacent to itself.
\<close>
theorem verifyClaimLocally_adjacent_total:
  "1 \<le> p \<and> p \<le> 9 \<longrightarrow>
     (\<exists>t. verifyClaimLocally p ''adjacent'' v = Inr t)
     \<and> verifyClaimLocally p ''adjacent'' v =
         Inr (\<bar>grid_row p - grid_row v\<bar> + \<bar>grid_col p - grid_col v\<bar> = 1)
     \<and> (1 \<le> v \<longrightarrow> verifyClaimLocally p ''adjacent'' v = Inr (spec_taxicab p v = 1))
     \<and> verifyClaimLocally p ''adjacent'' p = Inr False"
  by (simp add: verifyClaimLocally_adjacent_grid grid_eq_spec spec_taxicab_def)

theorem verifyClaimLocally_adjacent_total_witness:
  "verifyClaimLocally 3 ''adjacent'' 0 = Inr False
   \<and> verifyClaimLocally 9 ''adjacent'' 12 = Inr True
   \<and> verifyClaimLocally 1 ''adjacent'' (- 2) = Inr True
   \<and> verifyClaimLocally 9 ''adjacent'' 9 = Inr False"
  using verifyClaimLocally_adjacent_total [of 3 0] verifyClaimLocally_adjacent_total [of 9 12]
    verifyClaimLocally_adjacent_total [of 1 "- 2"]
  by (simp add: grid_row_def grid_col_def js_rem_def)

section \<open>Properties of the byte codec\<close>

lemma word8_and_ff: "(word_of_int (n AND 0xFF) :: byte) = word_of_int n"
proof -
  have "n AND 0xFF = take_bit 8 n"
    by (simp add: take_bit_eq_mask mask_eq_exp_minus_1)
  thus ?thesis by (simp add: wi_bintr)
qed

lemma loop_spec:
  "n \<le> length bytes \<Longrightarrow>
   decimalToBytes32_loop n bytes num =
     map (\<lambda>i. word_of_int (num div 256 ^ (n - 1 - i))) [0..<n] @ drop n bytes"
proof (induction n arbitrary: bytes num)
  case 0
  then show ?case by simp
next
  case (Suc n)
  have step: "(num div 256) div 256 ^ (n - Suc i) = num div 256 ^ (n - i)" if "i < n" for i
  proof -
    have "256 * (256::int) ^ (n - Suc i) = 256 ^ (n - i)"
      using that by (simp add: Suc_diff_Suc flip: power_Suc)
    thus ?thesis by (simp flip: zdiv_zmult2_eq)
  qed
  have "decimalToBytes32_loop (Suc n) bytes num =
        decimalToBytes32_loop n (bytes[n := word_of_int num]) (num div 256)"
    by (simp add: word8_and_ff drop_bit_eq_div)
  also have "\<dots> = map (\<lambda>i. word_of_int ((num div 256) div 256 ^ (n - 1 - i))) [0..<n]
                    @ drop n (bytes[n := word_of_int num])"
    using Suc.prems by (intro Suc.IH) simp
  also have "drop n (bytes[n := word_of_int num]) = word_of_int num # drop (Suc n) bytes"
    using Suc.prems by (simp add: upd_conv_take_nth_drop)
  also have "map (\<lambda>i. word_of_int ((num div 256) div 256 ^ (n - 1 - i)) :: byte) [0..<n]
           = map (\<lambda>i. word_of_int (num div 256 ^ (n - i))) [0..<n]"
    by (rule map_cong) (simp_all add: step)
  finally show ?case by simp
qed

lemma decimalToBytes32_loop_32:
  "decimalToBytes32_loop 32 (replicate 32 0) num = spec_bytes32 num"
  using loop_spec [of 32 "replicate 32 0" num] by (simp add: spec_bytes32_def)

lemma spec_be_value_snoc: "spec_be_value (bs @ [x]) = 256 * spec_be_value bs + unat x"
  by (simp add: spec_be_value_def)

lemma unat_byte_of_int: "unat (word_of_int n :: byte) = nat (n mod 256)"
  by (simp add: unsigned_of_int take_bit_eq_mod)  

lemma spec_be_value_digits:
  "0 \<le> n \<Longrightarrow>
   spec_be_value (map (\<lambda>i. word_of_int (n div 256 ^ (k - 1 - i))) [0..<k]) = nat (n mod 256 ^ k)"
proof (induction k arbitrary: n)
  case 0
  then show ?case by (simp add: spec_be_value_def)
next
  case (Suc k)
  have step: "(n div 256) div 256 ^ (k - Suc i) = n div 256 ^ (k - i)" if "i < k" for i
  proof -
    have "256 * (256::int) ^ (k - Suc i) = 256 ^ (k - i)"
      using that by (simp add: Suc_diff_Suc flip: power_Suc)
    thus ?thesis by (simp flip: zdiv_zmult2_eq)
  qed
  define xs :: "byte list"
    where "xs = map (\<lambda>i. word_of_int ((n div 256) div 256 ^ (k - 1 - i))) [0..<k]"
  have xs: "spec_be_value xs = nat ((n div 256) mod 256 ^ k)"
    unfolding xs_def using Suc.prems by (intro Suc.IH) simp
  have "map (\<lambda>i. word_of_int (n div 256 ^ (Suc k - 1 - i)) :: byte) [0..<Suc k]
      = xs @ [word_of_int n]"
    by (simp add: step xs_def)
  hence "spec_be_value (map (\<lambda>i. word_of_int (n div 256 ^ (Suc k - 1 - i)) :: byte) [0..<Suc k])
       = 256 * nat ((n div 256) mod 256 ^ k) + nat (n mod 256)"
    by (simp only: spec_be_value_snoc xs unat_byte_of_int)
  also have "\<dots> = nat (256 * ((n div 256) mod 256 ^ k) + n mod 256)"
    by (simp add: nat_add_distrib nat_mult_distrib)
  also have "256 * ((n div 256) mod 256 ^ k) + n mod 256 = n mod 256 ^ Suc k"
    by (simp add: zmod_zmult2_eq)
  finally show ?case .
qed

lemma spec_be_value_spec_bytes32: "0 \<le> n \<Longrightarrow> spec_be_value (spec_bytes32 n) = nat (n mod 2 ^ 256)"
  using spec_be_value_digits [of n 32] by (simp add: spec_bytes32_def)

lemma length_spec_bytes32: "length (spec_bytes32 n) = 32"
  by (simp add: spec_bytes32_def)

lemma nth_spec_bytes32: "i < 32 \<Longrightarrow> unat (spec_bytes32 n ! i) = nat ((n div 256 ^ (31 - i)) mod 256)"
  by (simp add: spec_bytes32_def unat_byte_of_int)

lemma digit_of_decimal:
  "48 \<le> (of_char ch :: nat) \<Longrightarrow> (of_char ch :: nat) \<le> 57 \<Longrightarrow> digit_of ch = Some (of_char ch - 48)"
  by (simp add: digit_of_def)

lemma decimal_value_Nil: "decimal_value [] = 0"
  by (simp add: decimal_value_def)

lemma decimal_value_snoc:
  "decimal_value (s @ [ch]) = 10 * decimal_value s + (of_char ch - 48)"
proof -
  have pow: "(10::nat) ^ (length s - i) = 10 * 10 ^ (length s - 1 - i)" if "i < length s" for i
    using that by (simp add: Suc_diff_Suc flip: power_Suc)
  have "decimal_value (s @ [ch]) =
        (\<Sum>i < length s. (of_char ((s @ [ch]) ! i) - 48) * 10 ^ (length s - i)) + (of_char ch - 48)"
    by (simp add: decimal_value_def)
  also have "(\<Sum>i < length s. (of_char ((s @ [ch]) ! i) - 48) * (10::nat) ^ (length s - i))
           = (\<Sum>i < length s. 10 * ((of_char (s ! i) - 48) * 10 ^ (length s - 1 - i)))"
    by (rule sum.cong) (simp_all add: nth_append pow)
  finally show ?thesis by (simp add: decimal_value_def sum_distrib_left)
qed

lemma parse_radix_append:
  "parse_radix r (s @ t) acc =
     (case parse_radix r s acc of None \<Rightarrow> None | Some acc' \<Rightarrow> parse_radix r t acc')"
  by (induction s arbitrary: acc) (simp_all split: option.splits)

lemma parse_radix_decimal:
  "\<forall>ch \<in> set s. 48 \<le> (of_char ch :: nat) \<and> (of_char ch :: nat) \<le> 57 \<Longrightarrow>
   parse_radix 10 s 0 = Some (decimal_value s)"
proof (induction s rule: rev_induct)
  case Nil
  then show ?case by (simp add: decimal_value_Nil)
next
  case (snoc ch s)
  then show ?case
    by (auto simp add: parse_radix_append digit_of_decimal decimal_value_snoc)
qed

lemma dropWhile_none: "\<forall>x \<in> set xs. \<not> P x \<Longrightarrow> dropWhile P xs = xs"
  by (cases xs) simp_all

lemma trim_ws_decimal: "is_decimal s \<Longrightarrow> trim_ws s = s"
proof -
  assume "is_decimal s"
  hence "\<forall>ch \<in> set s. \<not> is_ws ch"
    by (auto simp add: is_decimal_def is_ws_def)
  thus ?thesis by (simp add: trim_ws_def dropWhile_none)
qed

lemma radix_prefix_decimal: "is_decimal s \<Longrightarrow> radix_prefix s = None"
  by (cases s rule: radix_prefix.cases) (auto simp add: is_decimal_def)

lemma BigInt_decimal: "is_decimal s \<Longrightarrow> BigInt s = Inr (int (decimal_value s))"
proof -
  assume d: "is_decimal s"
  then obtain ch cs where s: "s = ch # cs"
    by (cases s) (simp_all add: is_decimal_def)
  have sign: "ch \<noteq> CHR ''+''" "ch \<noteq> CHR ''-''"
    using d s by (auto simp add: is_decimal_def)
  have "of_digits 10 s = Inr (int (decimal_value s))"
    using d by (simp add: of_digits_def is_decimal_def parse_radix_decimal)
  thus ?thesis
    using s sign radix_prefix_decimal [OF d] trim_ws_decimal [OF d]
    by (simp add: BigInt_def)
qed

lemma decimalToBytes32_decimal:
  "is_decimal s \<Longrightarrow> decimalToBytes32 s = Inr (spec_bytes32 (int (decimal_value s)))"
  by (simp add: decimalToBytes32_def BigInt_decimal decimalToBytes32_loop_32)



lemma set_at_first:
  "length x \<le> n \<Longrightarrow> set_at (replicate n 0) x 0 = Inr (x @ replicate (n - length x) 0)"
  by (simp add: set_at_def)

lemma set_at_append:
  "length r = k \<Longrightarrow> length x \<le> m \<Longrightarrow>
   set_at (r @ replicate m 0) x k = Inr (r @ x @ replicate (m - length x) 0)"
  by (simp add: set_at_def)

lemma index_simps:
  "index (x # xs) 0 = Inr x" "index (x # y # xs) 1 = Inr y"
  by (simp_all add: index_def)

lemma then_do_Inr: "then_do (Inr x) f = f x"
  by (simp add: then_do_def)

lemma length_decimalToBytes32: "decimalToBytes32 s = Inr bs \<Longrightarrow> length bs = 32"
  by (auto simp add: decimalToBytes32_def decimalToBytes32_loop_32 length_spec_bytes32 split: sum.splits)

lemma g1PointToBytes_layout:
  assumes "decimalToBytes32 x = Inr bx" and "decimalToBytes32 y = Inr b_y"
  shows "g1PointToBytes (x # y # rest) = Inr (bx @ b_y)"
proof -
  have l: "length bx = 32" "length b_y = 32"
    using assms by (simp_all add: length_decimalToBytes32)
  have 1: "set_at (replicate 64 0) bx 0 = Inr (bx @ replicate 32 0)"
    using set_at_first [of bx 64] l by simp
  have 2: "set_at (bx @ replicate 32 0) b_y 32 = Inr (bx @ b_y)"
    using set_at_append [of bx 32 b_y 32] l by simp
  show ?thesis
    by (simp only: g1PointToBytes_def index_simps then_do_Inr assms 1 2)
qed

lemma g2PointToBytes_layout:
  assumes "decimalToBytes32 xr = Inr bxr" and "decimalToBytes32 xi = Inr bxi"
    and "decimalToBytes32 yr = Inr byr" and "decimalToBytes32 yi = Inr byi"
  shows "g2PointToBytes ((xr # xi # xs) # (yr # yi # ys) # rest) = Inr (bxi @ bxr @ byi @ byr)"
proof -
  have l: "length bxr = 32" "length bxi = 32" "length byr = 32" "length byi = 32"
    using assms by (simp_all add: length_decimalToBytes32)
  have 1: "set_at (replicate 128 0) bxi 0 = Inr (bxi @ replicate 96 0)"
    using set_at_first [of bxi 128] l by simp
  have 2: "set_at (bxi @ replicate 96 0) bxr 32 = Inr ((bxi @ bxr) @ replicate 64 0)"
    using set_at_append [of bxi 32 bxr 96] l by simp
  have 3: "set_at ((bxi @ bxr) @ replicate 64 0) byi 64 = Inr ((bxi @ bxr @ byi) @ replicate 32 0)"
    using set_at_append [of "bxi @ bxr" 64 byi 64] l by simp
  have 4: "set_at ((bxi @ bxr @ byi) @ replicate 32 0) byr 96 = Inr (bxi @ bxr @ byi @ byr)"
    using set_at_append [of "bxi @ bxr @ byi" 96 byr 32] l by simp
  show ?thesis
    by (simp only: g2PointToBytes_def index_simps then_do_Inr assms 1 2 3 4)
qed


lemma decimal_value_foldl:
  "decimal_value s = foldl (\<lambda>acc ch. 10 * acc + (of_char ch - 48)) 0 s"
  by (induction s rule: rev_induct) (simp_all add: decimal_value_Nil decimal_value_snoc)

lemma upt_32:
  "[0..<32] = [0, 1, 2, 3, 4, 5, 6, 7, 8, 9, 10, 11, 12, 13, 14, 15, 16, 17, 18, 19, 20,
               21, 22, 23, 24, 25, 26, 27, 28, 29, 30, 31]"
  by (simp add: upt_rec)

lemma replicate_32: "replicate 32 x = [x, x, x, x, x, x, x, x, x, x, x, x, x, x, x, x,
                                       x, x, x, x, x, x, x, x, x, x, x, x, x, x, x, x]"
  by (simp add: numeral_eq_Suc)

lemma replicate_31: "replicate 31 x = [x, x, x, x, x, x, x, x, x, x, x, x, x, x, x, x,
                                       x, x, x, x, x, x, x, x, x, x, x, x, x, x, x]"
  by (simp add: numeral_eq_Suc)

lemma is_decimal_Cons:
  "is_decimal (ch # cs) =
     (48 \<le> (of_char ch :: nat) \<and> (of_char ch :: nat) \<le> 57 \<and> (cs = [] \<or> is_decimal cs))"
  by (auto simp add: is_decimal_def)

lemma decimalToBytes32_0: "decimalToBytes32 ''0'' = Inr (replicate 32 0)"
  by (simp add: decimalToBytes32_decimal is_decimal_Cons decimal_value_foldl
      spec_bytes32_def upt_32 replicate_32)

lemma decimalToBytes32_255: "decimalToBytes32 ''255'' = Inr (replicate 31 0 @ [0xFF])"
  by (simp add: decimalToBytes32_decimal is_decimal_Cons decimal_value_foldl
      spec_bytes32_def upt_32 replicate_31)

lemma decimalToBytes32_max:
  "decimalToBytes32
     ''115792089237316195423570985008687907853269984665640564039457584007913129639935''
   = Inr (replicate 32 0xFF)"
  by (simp add: decimalToBytes32_decimal is_decimal_Cons decimal_value_foldl
      spec_bytes32_def upt_32 replicate_32)

text \<open>
  Claim C2. On a string of decimal digits \<^verbatim>\<open>decimalToBytes32\<close> returns 32 bytes, the
  big-endian encoding of the value modulo \<open>2 ^ 256\<close>: byte \<open>i\<close> is the base-256 digit of
  weight \<open>256 ^ (31 - i)\<close>, and a value of \<open>2 ^ 256\<close> or more is truncated, not rejected.
  The three fixed vectors of the specification hold.
\<close>
theorem decimalToBytes32_big_endian:
  "(is_decimal s \<longrightarrow>
      (\<exists>bs. decimalToBytes32 s = Inr bs \<and> length bs = 32
         \<and> spec_be_value bs = decimal_value s mod 2 ^ 256
         \<and> (\<forall>i < 32. unat (bs ! i) = (decimal_value s div 256 ^ (31 - i)) mod 256)))
   \<and> decimalToBytes32 ''0'' = Inr (replicate 32 0)
   \<and> decimalToBytes32 ''255'' = Inr (replicate 31 0 @ [0xFF])
   \<and> decimalToBytes32
       ''115792089237316195423570985008687907853269984665640564039457584007913129639935''
     = Inr (replicate 32 0xFF)"
proof -
  have "\<exists>bs. decimalToBytes32 s = Inr bs \<and> length bs = 32
         \<and> spec_be_value bs = decimal_value s mod 2 ^ 256
         \<and> (\<forall>i < 32. unat (bs ! i) = (decimal_value s div 256 ^ (31 - i)) mod 256)"
    if d: "is_decimal s"
  proof (intro exI conjI allI impI)
    let ?n = "int (decimal_value s)"
    show "decimalToBytes32 s = Inr (spec_bytes32 ?n)"
      using d by (rule decimalToBytes32_decimal)
    show "length (spec_bytes32 ?n) = 32"
      by (rule length_spec_bytes32)
    show "spec_be_value (spec_bytes32 ?n) = decimal_value s mod 2 ^ 256"
      by (simp add: spec_be_value_spec_bytes32 nat_mod_distrib flip: of_nat_power of_nat_mod)
    show "unat (spec_bytes32 ?n ! i) = (decimal_value s div 256 ^ (31 - i)) mod 256"
      if "i < 32" for i
    proof -
      have "int ((decimal_value s div 256 ^ (31 - i)) mod 256) = (?n div 256 ^ (31 - i)) mod 256"
        by (simp add: zmod_int zdiv_int)
      hence "nat ((?n div 256 ^ (31 - i)) mod 256) = (decimal_value s div 256 ^ (31 - i)) mod 256"
        by (metis nat_int)
      thus ?thesis
        using that by (simp only: nth_spec_bytes32)
    qed
  qed
  thus ?thesis
    by (simp only: decimalToBytes32_0 decimalToBytes32_255 decimalToBytes32_max) simp
qed

theorem decimalToBytes32_big_endian_witness:
  "is_decimal ''115792089237316195423570985008687907853269984665640564039457584007913129640191''
   \<and> (\<exists>bs. decimalToBytes32
              ''115792089237316195423570985008687907853269984665640564039457584007913129640191''
            = Inr bs \<and> length bs = 32 \<and> spec_be_value bs = 255 \<and> unat (bs ! 31) = 255
              \<and> unat (bs ! 0) = 0)"
proof -
  let ?s = "''115792089237316195423570985008687907853269984665640564039457584007913129640191''"
  have d: "is_decimal ?s"
    by (simp add: is_decimal_Cons)
  have v: "decimal_value ?s
           = 115792089237316195423570985008687907853269984665640564039457584007913129640191"
    by (simp add: decimal_value_foldl)
  from decimalToBytes32_big_endian [of ?s] d
  obtain bs where bs: "decimalToBytes32 ?s = Inr bs" "length bs = 32"
      "spec_be_value bs = decimal_value ?s mod 2 ^ 256"
      "\<forall>i < 32. unat (bs ! i) = (decimal_value ?s div 256 ^ (31 - i)) mod 256"
    by blast
  have "spec_be_value bs = 255"
    unfolding bs(3) v by simp
  moreover have "unat (bs ! 31) = 255"
    using bs(4) [rule_format, of 31] unfolding v by simp
  moreover have "unat (bs ! 0) = 0"
    using bs(4) [rule_format, of 0] unfolding v by simp
  ultimately show ?thesis
    using d bs(1,2) by blast
qed


lemma decimalToBytes32_small:
  "decimalToBytes32 ''1'' = Inr (replicate 31 0 @ [1])"
  "decimalToBytes32 ''2'' = Inr (replicate 31 0 @ [2])"
  "decimalToBytes32 ''3'' = Inr (replicate 31 0 @ [3])"
  "decimalToBytes32 ''4'' = Inr (replicate 31 0 @ [4])"
  by (simp_all add: decimalToBytes32_decimal is_decimal_Cons decimal_value_foldl
      spec_bytes32_def upt_32 replicate_31)

lemma decimalToBytes32_total:
  "is_decimal s \<Longrightarrow> \<exists>bs. decimalToBytes32 s = Inr bs \<and> length bs = 32"
  by (simp add: decimalToBytes32_decimal length_spec_bytes32)

lemma g2PointToBytes_decimal:
  assumes "is_decimal xReal" and "is_decimal xImag" and "is_decimal yReal" and "is_decimal yImag"
  shows "\<exists>bxr bxi byr byi.
          decimalToBytes32 xReal = Inr bxr \<and> decimalToBytes32 xImag = Inr bxi
        \<and> decimalToBytes32 yReal = Inr byr \<and> decimalToBytes32 yImag = Inr byi
        \<and> g2PointToBytes ((xReal # xImag # xs) # (yReal # yImag # ys) # rest)
            = Inr (bxi @ bxr @ byi @ byr)
        \<and> length (bxi @ bxr @ byi @ byr) = 128"
proof -
  obtain bxr where bxr: "decimalToBytes32 xReal = Inr bxr" "length bxr = 32"
    using assms decimalToBytes32_total [of xReal] by blast
  obtain bxi where bxi: "decimalToBytes32 xImag = Inr bxi" "length bxi = 32"
    using assms decimalToBytes32_total [of xImag] by blast
  obtain byr where byr: "decimalToBytes32 yReal = Inr byr" "length byr = 32"
    using assms decimalToBytes32_total [of yReal] by blast
  obtain byi where byi: "decimalToBytes32 yImag = Inr byi" "length byi = 32"
    using assms decimalToBytes32_total [of yImag] by blast
  have "g2PointToBytes ((xReal # xImag # xs) # (yReal # yImag # ys) # rest)
          = Inr (bxi @ bxr @ byi @ byr)"
    using bxr(1) bxi(1) byr(1) byi(1) by (rule g2PointToBytes_layout)
  moreover have "length (bxi @ bxr @ byi @ byr) = 128"
    using bxr(2) bxi(2) byr(2) byi(2) by simp
  ultimately show ?thesis
    using bxr(1) bxi(1) byr(1) byi(1) by blast
qed

text \<open>
  Claim C1. For a G2 point whose two axes are (real, imaginary) pairs of decimal strings,
  \<^verbatim>\<open>g2PointToBytes\<close> returns the 128 bytes
  \<open>bytes32 x_imag @ bytes32 x_real @ bytes32 y_imag @ bytes32 y_real\<close>; the point
  \<open>[[1, 2], [3, 4]]\<close> gives \<open>bytes32 2 @ bytes32 1 @ bytes32 4 @ bytes32 3\<close>.
\<close>
theorem g2PointToBytes_imag_before_real:
  "(is_decimal xReal \<and> is_decimal xImag \<and> is_decimal yReal \<and> is_decimal yImag \<longrightarrow>
      (\<exists>bxr bxi byr byi.
          decimalToBytes32 xReal = Inr bxr \<and> decimalToBytes32 xImag = Inr bxi
        \<and> decimalToBytes32 yReal = Inr byr \<and> decimalToBytes32 yImag = Inr byi
        \<and> g2PointToBytes ((xReal # xImag # xs) # (yReal # yImag # ys) # rest)
            = Inr (bxi @ bxr @ byi @ byr)
        \<and> length (bxi @ bxr @ byi @ byr) = 128))
   \<and> (\<exists>b1 b2 b3 b4.
          decimalToBytes32 ''1'' = Inr b1 \<and> decimalToBytes32 ''2'' = Inr b2
        \<and> decimalToBytes32 ''3'' = Inr b3 \<and> decimalToBytes32 ''4'' = Inr b4
        \<and> g2PointToBytes [[''1'', ''2''], [''3'', ''4'']] = Inr (b2 @ b1 @ b4 @ b3))"
proof (intro conjI impI)
  assume "is_decimal xReal \<and> is_decimal xImag \<and> is_decimal yReal \<and> is_decimal yImag"
  thus "\<exists>bxr bxi byr byi.
          decimalToBytes32 xReal = Inr bxr \<and> decimalToBytes32 xImag = Inr bxi
        \<and> decimalToBytes32 yReal = Inr byr \<and> decimalToBytes32 yImag = Inr byi
        \<and> g2PointToBytes ((xReal # xImag # xs) # (yReal # yImag # ys) # rest)
            = Inr (bxi @ bxr @ byi @ byr)
        \<and> length (bxi @ bxr @ byi @ byr) = 128"
    by (intro g2PointToBytes_decimal) simp_all
next
  have "g2PointToBytes [[''1'', ''2''], [''3'', ''4'']]
          = Inr ((replicate 31 0 @ [2]) @ (replicate 31 0 @ [1])
                 @ (replicate 31 0 @ [4]) @ (replicate 31 0 @ [3]))"
    by (rule g2PointToBytes_layout) (rule decimalToBytes32_small)+
  thus "\<exists>b1 b2 b3 b4.
          decimalToBytes32 ''1'' = Inr b1 \<and> decimalToBytes32 ''2'' = Inr b2
        \<and> decimalToBytes32 ''3'' = Inr b3 \<and> decimalToBytes32 ''4'' = Inr b4
        \<and> g2PointToBytes [[''1'', ''2''], [''3'', ''4'']] = Inr (b2 @ b1 @ b4 @ b3)"
    using decimalToBytes32_small by blast
qed

theorem g2PointToBytes_imag_before_real_witness:
  "is_decimal ''10'' \<and> is_decimal ''11'' \<and> is_decimal ''12'' \<and> is_decimal ''13''
   \<and> g2PointToBytes [[''10'', ''11''], [''12'', ''13''], [''1'', ''0'']]
       = Inr (replicate 31 0 @ [11] @ replicate 31 0 @ [10]
              @ replicate 31 0 @ [13] @ replicate 31 0 @ [12])"
proof -
  have d: "is_decimal ''10'' \<and> is_decimal ''11'' \<and> is_decimal ''12'' \<and> is_decimal ''13''"
    by (simp add: is_decimal_Cons)
  have v: "decimalToBytes32 ''10'' = Inr (replicate 31 0 @ [10])"
      "decimalToBytes32 ''11'' = Inr (replicate 31 0 @ [11])"
      "decimalToBytes32 ''12'' = Inr (replicate 31 0 @ [12])"
      "decimalToBytes32 ''13'' = Inr (replicate 31 0 @ [13])"
    by (simp_all add: decimalToBytes32_decimal is_decimal_Cons decimal_value_foldl
        spec_bytes32_def upt_32 replicate_31)
  from g2PointToBytes_imag_before_real
    [of "''10''" "''11''" "''12''" "''13''" "[]" "[]" "[[''1'', ''0'']]"] d
  show ?thesis
    by (auto simp add: v)
qed

text \<open>
  Claim C7. For a proof whose points are decimal strings the conversion returns the
  record of \<^verbatim>\<open>g1PointToBytes\<close> of \<^verbatim>\<open>pi_a\<close>, \<^verbatim>\<open>g2PointToBytes\<close> of \<^verbatim>\<open>pi_b\<close> and
  \<^verbatim>\<open>g1PointToBytes\<close> of \<^verbatim>\<open>pi_c\<close>, where a G1 point is encoded as
  \<open>bytes32 x @ bytes32 y\<close>; the fields \<open>a\<close> and \<open>c\<close> have 64 bytes and \<open>b\<close> has 128.
\<close>
theorem convertSnarkjsProofToContract_layout:
  "(pi_a sp = ax # ay # ra \<and> pi_b sp = (bxr # bxi # rx) # (byr # byi # ry) # rb
      \<and> pi_c sp = cx # cy # rc
      \<and> is_decimal ax \<and> is_decimal ay \<and> is_decimal bxr \<and> is_decimal bxi
      \<and> is_decimal byr \<and> is_decimal byi \<and> is_decimal cx \<and> is_decimal cy \<longrightarrow>
    (\<exists>pa pb pc eax eay ecx ecy.
        convertSnarkjsProofToContract sp = Inr \<lparr>a = pa, b = pb, c = pc\<rparr>
      \<and> g1PointToBytes (pi_a sp) = Inr pa \<and> g2PointToBytes (pi_b sp) = Inr pb
      \<and> g1PointToBytes (pi_c sp) = Inr pc
      \<and> decimalToBytes32 ax = Inr eax \<and> decimalToBytes32 ay = Inr eay \<and> pa = eax @ eay
      \<and> decimalToBytes32 cx = Inr ecx \<and> decimalToBytes32 cy = Inr ecy \<and> pc = ecx @ ecy
      \<and> length pa = 64 \<and> length pb = 128 \<and> length pc = 64))"
proof (intro impI)
  assume h: "pi_a sp = ax # ay # ra \<and> pi_b sp = (bxr # bxi # rx) # (byr # byi # ry) # rb
      \<and> pi_c sp = cx # cy # rc
      \<and> is_decimal ax \<and> is_decimal ay \<and> is_decimal bxr \<and> is_decimal bxi
      \<and> is_decimal byr \<and> is_decimal byi \<and> is_decimal cx \<and> is_decimal cy"
  obtain eax where eax: "decimalToBytes32 ax = Inr eax" "length eax = 32"
    using h decimalToBytes32_total [of ax] by blast
  obtain eay where eay: "decimalToBytes32 ay = Inr eay" "length eay = 32"
    using h decimalToBytes32_total [of ay] by blast
  obtain ecx where ecx: "decimalToBytes32 cx = Inr ecx" "length ecx = 32"
    using h decimalToBytes32_total [of cx] by blast
  obtain ecy where ecy: "decimalToBytes32 cy = Inr ecy" "length ecy = 32"
    using h decimalToBytes32_total [of cy] by blast
  obtain pb where pb: "g2PointToBytes (pi_b sp) = Inr pb" "length pb = 128"
    using h g2PointToBytes_decimal [of bxr bxi byr byi rx ry rb] by auto
  have pa: "g1PointToBytes (pi_a sp) = Inr (eax @ eay)"
    using h eax(1) eay(1) by (simp add: g1PointToBytes_layout)
  have pc: "g1PointToBytes (pi_c sp) = Inr (ecx @ ecy)"
    using h ecx(1) ecy(1) by (simp add: g1PointToBytes_layout)
  have "convertSnarkjsProofToContract sp = Inr \<lparr>a = eax @ eay, b = pb, c = ecx @ ecy\<rparr>"
    by (simp add: convertSnarkjsProofToContract_def pa pb pc then_do_Inr)
  thus "\<exists>pa pb pc eax eay ecx ecy.
        convertSnarkjsProofToContract sp = Inr \<lparr>a = pa, b = pb, c = pc\<rparr>
      \<and> g1PointToBytes (pi_a sp) = Inr pa \<and> g2PointToBytes (pi_b sp) = Inr pb
      \<and> g1PointToBytes (pi_c sp) = Inr pc
      \<and> decimalToBytes32 ax = Inr eax \<and> decimalToBytes32 ay = Inr eay \<and> pa = eax @ eay
      \<and> decimalToBytes32 cx = Inr ecx \<and> decimalToBytes32 cy = Inr ecy \<and> pc = ecx @ ecy
      \<and> length pa = 64 \<and> length pb = 128 \<and> length pc = 64"
    using pa pb pc eax eay ecx ecy by simp
qed

theorem convertSnarkjsProofToContract_layout_witness:
  "convertSnarkjsProofToContract
     \<lparr>pi_a = [''1'', ''2'', ''1''], pi_b = [[''3'', ''4''], [''1'', ''2''], [''1'', ''0'']],
      pi_c = [''4'', ''3'', ''1''], protocol = ''groth16'', curve = ''bn128''\<rparr>
   = Inr \<lparr>a = (replicate 31 0 @ [1]) @ (replicate 31 0 @ [2]),
          b = (replicate 31 0 @ [4]) @ (replicate 31 0 @ [3])
              @ (replicate 31 0 @ [2]) @ (replicate 31 0 @ [1]),
          c = (replicate 31 0 @ [4]) @ (replicate 31 0 @ [3])\<rparr>"
proof -
  let ?sp = "\<lparr>pi_a = [''1'', ''2'', ''1''],
               pi_b = [[''3'', ''4''], [''1'', ''2''], [''1'', ''0'']],
               pi_c = [''4'', ''3'', ''1''], protocol = ''groth16'', curve = ''bn128''\<rparr>"
  have d: "is_decimal ''1''" "is_decimal ''2''" "is_decimal ''3''" "is_decimal ''4''"
    by (simp_all add: is_decimal_Cons)
  have pb: "g2PointToBytes (pi_b ?sp)
            = Inr ((replicate 31 0 @ [4]) @ (replicate 31 0 @ [3])
                   @ (replicate 31 0 @ [2]) @ (replicate 31 0 @ [1]))"
    unfolding SnarkjsProof.simps by (rule g2PointToBytes_layout) (rule decimalToBytes32_small)+
  have "pi_a ?sp = ''1'' # ''2'' # [''1'']
      \<and> pi_b ?sp = (''3'' # ''4'' # []) # (''1'' # ''2'' # []) # [[''1'', ''0'']]
      \<and> pi_c ?sp = ''4'' # ''3'' # [''1'']
      \<and> is_decimal ''1'' \<and> is_decimal ''2'' \<and> is_decimal ''3'' \<and> is_decimal ''4''
      \<and> is_decimal ''1'' \<and> is_decimal ''2'' \<and> is_decimal ''4'' \<and> is_decimal ''3''"
    using d by simp
  from convertSnarkjsProofToContract_layout [rule_format, OF this]
  obtain pa pb' pc eax eay ecx ecy where
    r: "convertSnarkjsProofToContract ?sp = Inr \<lparr>a = pa, b = pb', c = pc\<rparr>"
    and b: "g2PointToBytes (pi_b ?sp) = Inr pb'"
    and a: "decimalToBytes32 ''1'' = Inr eax" "decimalToBytes32 ''2'' = Inr eay" "pa = eax @ eay"
    and c: "decimalToBytes32 ''4'' = Inr ecx" "decimalToBytes32 ''3'' = Inr ecy" "pc = ecx @ ecy"
    by blast
  have "pa = (replicate 31 0 @ [1]) @ (replicate 31 0 @ [2])"
    using a by (simp only: decimalToBytes32_small sum.inject)
  moreover have "pc = (replicate 31 0 @ [4]) @ (replicate 31 0 @ [3])"
    using c by (simp only: decimalToBytes32_small sum.inject)
  moreover have "pb' = (replicate 31 0 @ [4]) @ (replicate 31 0 @ [3])
                   @ (replicate 31 0 @ [2]) @ (replicate 31 0 @ [1])"
    using b pb by (simp only: sum.inject)
  ultimately show ?thesis
    using r by (simp only:)
qed

section \<open>Properties of the proof orchestration\<close>

text \<open>
  Claim C6. For a position on the grid and one of the three claim types, the record that
  \<^verbatim>\<open>generateClaimProof\<close> returns carries in \<open>isTrue\<close> the value of the local evaluator.
  The evaluator runs first: its value is handed to the prover as \<open>expectedResult\<close>, and
  the \<open>isTrue\<close> of the result is the same for every prover, whatever it returns.
\<close>
theorem generateClaimProof_isTrue:
  "1 \<le> p \<and> p \<le> 9 \<and> (ct = ''row'' \<or> ct = ''column'' \<or> ct = ''adjacent'') \<longrightarrow>
     (\<exists>t. verifyClaimLocally p ct v = Inr t
        \<and> generateClaimProof fullProve p ct v =
            (case fullProve [(''position'', Some p), (''claimType'', CLAIM_TYPE_MAP ct),
                             (''claimValue'', Some v),
                             (''expectedResult'', Some (if t then 1 else 0))]
                   WASM_PATH ZKEY_PATH of
               Inl e \<Rightarrow> Inl e
             | Inr res \<Rightarrow> Inr \<lparr>proof' = proof' res, publicSignals = publicSignals res,
                               isTrue = t\<rparr>)
        \<and> (\<forall>r. generateClaimProof fullProve p ct v = Inr r \<longrightarrow> isTrue r = t)
        \<and> (\<forall>r r'. generateClaimProof fullProve p ct v = Inr r
                \<and> generateClaimProof fullProve' p ct v = Inr r' \<longrightarrow> isTrue r = isTrue r'))"
proof (intro impI)
  assume h: "1 \<le> p \<and> p \<le> 9 \<and> (ct = ''row'' \<or> ct = ''column'' \<or> ct = ''adjacent'')"
  then obtain t where t: "verifyClaimLocally p ct v = Inr t"
    by (auto simp add: verifyClaimLocally_def Let_def)
  have run: "generateClaimProof f p ct v =
            (case f [(''position'', Some p), (''claimType'', CLAIM_TYPE_MAP ct),
                     (''claimValue'', Some v), (''expectedResult'', Some (if t then 1 else 0))]
                   WASM_PATH ZKEY_PATH of
               Inl e \<Rightarrow> Inl e
             | Inr res \<Rightarrow> Inr \<lparr>proof' = proof' res, publicSignals = publicSignals res,
                               isTrue = t\<rparr>)" for f
    by (simp add: generateClaimProof_def t then_do_def Let_def)
  have out: "isTrue r = t" if "generateClaimProof f p ct v = Inr r" for f r
    using that unfolding run by (auto split: sum.splits)
  have "verifyClaimLocally p ct v = Inr t
        \<and> generateClaimProof fullProve p ct v =
            (case fullProve [(''position'', Some p), (''claimType'', CLAIM_TYPE_MAP ct),
                             (''claimValue'', Some v),
                             (''expectedResult'', Some (if t then 1 else 0))]
                   WASM_PATH ZKEY_PATH of
               Inl e \<Rightarrow> Inl e
             | Inr res \<Rightarrow> Inr \<lparr>proof' = proof' res, publicSignals = publicSignals res,
                               isTrue = t\<rparr>)
        \<and> (\<forall>r. generateClaimProof fullProve p ct v = Inr r \<longrightarrow> isTrue r = t)
        \<and> (\<forall>r r'. generateClaimProof fullProve p ct v = Inr r
                \<and> generateClaimProof fullProve' p ct v = Inr r' \<longrightarrow> isTrue r = isTrue r')"
  proof (intro conjI allI impI)
    show "verifyClaimLocally p ct v = Inr t" by (rule t)
    show "generateClaimProof fullProve p ct v =
            (case fullProve [(''position'', Some p), (''claimType'', CLAIM_TYPE_MAP ct),
                             (''claimValue'', Some v),
                             (''expectedResult'', Some (if t then 1 else 0))]
                   WASM_PATH ZKEY_PATH of
               Inl e \<Rightarrow> Inl e
             | Inr res \<Rightarrow> Inr \<lparr>proof' = proof' res, publicSignals = publicSignals res,
                               isTrue = t\<rparr>)"
      by (rule run)
    show "isTrue r = t" if "generateClaimProof fullProve p ct v = Inr r" for r
      using that by (rule out)
    show "isTrue r = isTrue r'"
      if "generateClaimProof fullProve p ct v = Inr r \<and> generateClaimProof fullProve' p ct v = Inr r'"
      for r r'
      using that out [of fullProve r] out [of fullProve' r'] by simp
  qed
  thus "\<exists>t. verifyClaimLocally p ct v = Inr t
        \<and> generateClaimProof fullProve p ct v =
            (case fullProve [(''position'', Some p), (''claimType'', CLAIM_TYPE_MAP ct),
                             (''claimValue'', Some v),
                             (''expectedResult'', Some (if t then 1 else 0))]
                   WASM_PATH ZKEY_PATH of
               Inl e \<Rightarrow> Inl e
             | Inr res \<Rightarrow> Inr \<lparr>proof' = proof' res, publicSignals = publicSignals res,
                               isTrue = t\<rparr>)
        \<and> (\<forall>r. generateClaimProof fullProve p ct v = Inr r \<longrightarrow> isTrue r = t)
        \<and> (\<forall>r r'. generateClaimProof fullProve p ct v = Inr r
                \<and> generateClaimProof fullProve' p ct v = Inr r' \<longrightarrow> isTrue r = isTrue r')"
    by (rule exI)
qed

theorem generateClaimProof_isTrue_witness:
  "verifyClaimLocally 5 ''adjacent'' 2 = Inr True
   \<and> (\<exists>r. generateClaimProof constant_prover 5 ''adjacent'' 2 = Inr r \<and> isTrue r
          \<and> publicSignals r = [''0''])"
proof -
  have e: "verifyClaimLocally 5 ''adjacent'' 2 = Inr True"
    by (simp add: verifyClaimLocally_def Let_def js_rem_def)
  from generateClaimProof_isTrue [of 5 "''adjacent''" 2 constant_prover constant_prover]
  obtain t where t: "verifyClaimLocally 5 ''adjacent'' 2 = Inr t"
    and run: "generateClaimProof constant_prover 5 ''adjacent'' 2 =
       (case constant_prover [(''position'', Some 5), (''claimType'', CLAIM_TYPE_MAP ''adjacent''),
                            (''claimValue'', Some 2),
                            (''expectedResult'', Some (if t then 1 else 0))]
               WASM_PATH ZKEY_PATH of
          Inl e \<Rightarrow> Inl e
        | Inr res \<Rightarrow> Inr \<lparr>proof' = proof' res, publicSignals = publicSignals res, isTrue = t\<rparr>)"
    by auto
  have "t" using t e by simp
  thus ?thesis
    unfolding run constant_prover_def using e by simp
qed

section \<open>Properties of the proof transport\<close>

subsection \<open>The fuel of the parser\<close>

text \<open>
  Every parser returns a rest that is shorter than its input, and a result obtained with
  some fuel is obtained with any fuel above twice the length of the input. So the fuel of
  \<^verbatim>\<open>JSON_parse\<close> is enough: more fuel never changes what it returns.
\<close>

lemma length_skip_ws: "length (skip_ws s) \<le> length s"
  by (simp add: skip_ws_def length_dropWhile_le)

lemma skip_ws_Cons_length: "skip_ws s = u # r \<Longrightarrow> length r < length s"
  using length_skip_ws [of s] by simp

lemma parse_string_shrink: "parse_string s acc = Some (k, r) \<Longrightarrow> length r < length s"
proof (induction s acc rule: parse_string.induct)
  case (1 acc)
  then show ?case by simp
next
  case (2 u us acc)
  show ?case
  proof (cases "u = QUOTE")
    case True
    then show ?thesis using "2.prems" by simp
  next
    case nq: False
    show ?thesis
    proof (cases "u = BACKSLASH")
      case bs: True
      show ?thesis
      proof (cases us)
        case Nil
        then show ?thesis using "2.prems" nq bs by simp
      next
        case (Cons e r1)
        show ?thesis
        proof (cases "e = 0x75")
          case eu: True
          from "2.prems" nq bs Cons eu obtain h1 h2 h3 h4 r' x where
            r1: "r1 = h1 # h2 # h3 # h4 # r'" and x: "hex4 h1 h2 h3 h4 = Some x"
            and p: "parse_string r' (acc @ [x]) = Some (k, r)"
            by (auto split: list.splits option.splits)
          have "length r < length r'"
            using nq bs Cons eu r1 x p by (intro "2.IH"(1)) simp_all
          then show ?thesis using Cons r1 by simp
        next
          case ne: False
          from "2.prems" nq bs Cons ne obtain x where x: "simple_escape e = Some x"
            and p: "parse_string r1 (acc @ [x]) = Some (k, r)"
            by (auto split: option.splits)
          have "length r < length r1"
            using nq bs Cons ne x p by (intro "2.IH"(2)) simp_all
          then show ?thesis using Cons by simp
        qed
      qed
    next
      case nb: False
      from "2.prems" nq nb have c: "\<not> u < 0x20" and p: "parse_string us (acc @ [u]) = Some (k, r)"
        by (auto split: if_splits)
      have "length r < length us"
        using nq nb c p by (intro "2.IH"(3)) simp_all
      then show ?thesis by simp
    qed
  qed
qed

lemma strip_prefix_shrink: "strip_prefix xs s = Some r \<Longrightarrow> xs \<noteq> [] \<Longrightarrow> length r < length s"
proof (induction xs s rule: strip_prefix.induct)
  case (3 x xs u us)
  then show ?case by (cases xs) (auto split: if_splits)
qed simp_all

lemma scan_digits_shrink: "scan_digits s = Some (ds, r) \<Longrightarrow> length r < length s"
proof -
  assume "scan_digits s = Some (ds, r)"
  hence "takeWhile is_digit s \<noteq> []" "r = dropWhile is_digit s"
    by (auto simp add: scan_digits_def split: if_splits)
  thus ?thesis
    by (cases s) (auto simp add: length_dropWhile_le le_imp_less_Suc split: if_splits)
qed

lemma scan_int_shrink: "scan_int s = Some (ds, r) \<Longrightarrow> length r < length s"
  by (auto simp add: scan_int_def dest: scan_digits_shrink split: list.splits if_splits)

lemma scan_frac_shrink: "scan_frac s = Some (ds, r) \<Longrightarrow> length r \<le> length s"
  by (auto simp add: scan_frac_def dest!: scan_digits_shrink split: list.splits if_splits)

lemma scan_sign_shrink: "scan_sign s = (sg, r) \<Longrightarrow> length r \<le> length s"
  by (auto simp add: scan_sign_def split: list.splits if_splits)

lemma scan_exp_shrink: "scan_exp s = Some (ds, r) \<Longrightarrow> length r \<le> length s"
proof (cases s)
  case Nil
  assume "scan_exp s = Some (ds, r)"
  then show ?thesis using Nil by (simp add: scan_exp_def)
next
  case (Cons u us)
  assume a: "scan_exp s = Some (ds, r)"
  show ?thesis
  proof (cases "u = 0x65 \<or> u = 0x45")
    case False
    then show ?thesis using a Cons by (auto simp add: scan_exp_def)
  next
    case True
    obtain sg r' where sg: "scan_sign us = (sg, r')" by (cases "scan_sign us")
    from a Cons True sg obtain ds' where "scan_digits r' = Some (ds', r)"
      by (auto simp add: scan_exp_def)
    hence "length r < length r'" by (rule scan_digits_shrink)
    moreover have "length r' \<le> length us" using sg by (rule scan_sign_shrink)
    ultimately show ?thesis using Cons by simp
  qed
qed

lemma scan_number_shrink: "scan_number s = Some (lit, r) \<Longrightarrow> length r < length s"
proof -
  assume a: "scan_number s = Some (lit, r)"
  obtain sg r0 where s0: "(case s of [] \<Rightarrow> ([], s) | u # r \<Rightarrow> if u = 0x2D then ([u], r) else ([], s)) = (sg, r0)"
    by (cases "(case s of [] \<Rightarrow> ([], s) | u # r \<Rightarrow> if u = 0x2D then ([u], r) else ([], s))")
  hence l0: "length r0 \<le> length s"
    by (auto split: list.splits if_splits)
  from a obtain ip r1 fp r2 ep where
    1: "scan_int r0 = Some (ip, r1)" and 2: "scan_frac r1 = Some (fp, r2)"
    and 3: "scan_exp r2 = Some (ep, r)"
    unfolding scan_number_def s0 by (auto split: option.splits)
  have "length r1 < length r0" using 1 by (rule scan_int_shrink)
  moreover have "length r2 \<le> length r1" using 2 by (rule scan_frac_shrink)
  moreover have "length r \<le> length r2" using 3 by (rule scan_exp_shrink)
  ultimately show ?thesis using l0 by linarith
qed

lemma parse_value_step:
  assumes ihE: "\<And>s acc v r. parse_elements g n s acc = Some (v, r) \<Longrightarrow>
                  length r < length s
                  \<and> (\<forall>k. 2 * length s + 1 < k \<longrightarrow> parse_elements g k s acc = Some (v, r))"
    and ihM: "\<And>s props v r. parse_members g n s props = Some (v, r) \<Longrightarrow>
                  length r < length s
                  \<and> (\<forall>k. 2 * length s + 1 < k \<longrightarrow> parse_members g k s props = Some (v, r))"
    and pv: "parse_value g (Suc n) s = Some (v, r)"
  shows "length r < length s \<and> (\<forall>k. 2 * length s < k \<longrightarrow> parse_value g k s = Some (v, r))"
proof -
  obtain u t where st: "skip_ws s = u # t"
    using pv by (cases "skip_ws s") simp_all
  have lt: "length t < length s"
    using st by (rule skip_ws_Cons_length)
  have fuel: "\<exists>k'. k = Suc k' \<and> 2 * length t + 1 < k'" if "2 * length s < k" for k
    using that lt by (cases k) auto
  consider (obj) "u = LBRACE" | (arr) "u \<noteq> LBRACE" "u = LBRACKET"
    | (leaf) "u \<noteq> LBRACE" "u \<noteq> LBRACKET"
    by blast
  then show ?thesis
  proof cases
    case obj
    obtain u' t' where st': "skip_ws t = u' # t'"
      using pv st obj by (cases "skip_ws t") simp_all
    have lt': "length t' < length t"
      using st' by (rule skip_ws_Cons_length)
    show ?thesis
    proof (cases "u' = RBRACE")
      case True
      have "parse_value g (Suc k) s = Some (JObject [], t')" for k
        using st st' obj True by simp
      moreover from this [of n] pv have res: "v = JObject []" "r = t'" by simp_all
      ultimately have "parse_value g k s = Some (v, r)" if "2 * length s < k" for k
        using fuel [OF that] by auto
      then show ?thesis
        using lt lt' res by simp
    next
      case False
      have eq: "parse_value g (Suc k) s = parse_members g k t []" for k
        using st st' obj False by simp
      have "parse_members g n t [] = Some (v, r)"
        using pv eq by simp
      from ihM [OF this] have l: "length r < length t"
        and st: "\<And>k. 2 * length t + 1 < k \<Longrightarrow> parse_members g k t [] = Some (v, r)"
        by simp_all
      have "parse_value g k s = Some (v, r)" if "2 * length s < k" for k
        using fuel [OF that] eq st by auto
      then show ?thesis
        using lt l by simp
    qed
  next
    case arr
    obtain u' t' where st': "skip_ws t = u' # t'"
      using pv st arr by (cases "skip_ws t") simp_all
    have lt': "length t' < length t"
      using st' by (rule skip_ws_Cons_length)
    show ?thesis
    proof (cases "u' = RBRACKET")
      case True
      have "parse_value g (Suc k) s = Some (JArray [], t')" for k
        using st st' arr True by simp
      moreover from this [of n] pv have res: "v = JArray []" "r = t'" by simp_all
      ultimately have "parse_value g k s = Some (v, r)" if "2 * length s < k" for k
        using fuel [OF that] by auto
      then show ?thesis
        using lt lt' res by simp
    next
      case False
      have eq: "parse_value g (Suc k) s = parse_elements g k t []" for k
        using st st' arr False by simp
      have "parse_elements g n t [] = Some (v, r)"
        using pv eq by simp
      from ihE [OF this] have l: "length r < length t"
        and st: "\<And>k. 2 * length t + 1 < k \<Longrightarrow> parse_elements g k t [] = Some (v, r)"
        by simp_all
      have "parse_value g k s = Some (v, r)" if "2 * length s < k" for k
        using fuel [OF that] eq st by auto
      then show ?thesis
        using lt l by simp
    qed
  next
    case leaf
    have eq: "parse_value g (Suc k) s = parse_value g (Suc n) s" for k
      using st leaf by simp
    have "length r \<le> length t"
    proof -
      have "length r < length (u # t)"
        using pv st leaf
        by (auto split: if_splits
            dest!: parse_string_shrink strip_prefix_shrink scan_number_shrink
            simp add: js_def)
      thus ?thesis by simp
    qed
    moreover have "parse_value g k s = Some (v, r)" if "2 * length s < k" for k
      using fuel [OF that] eq pv by auto
    ultimately show ?thesis
      using lt by simp
  qed
qed

lemma parse_elements_step:
  assumes ihV: "\<And>s v r. parse_value g n s = Some (v, r) \<Longrightarrow>
                  length r < length s
                  \<and> (\<forall>k. 2 * length s < k \<longrightarrow> parse_value g k s = Some (v, r))"
    and ihE: "\<And>s acc v r. parse_elements g n s acc = Some (v, r) \<Longrightarrow>
                  length r < length s
                  \<and> (\<forall>k. 2 * length s + 1 < k \<longrightarrow> parse_elements g k s acc = Some (v, r))"
    and pe: "parse_elements g (Suc n) s acc = Some (v, r)"
  shows "length r < length s
         \<and> (\<forall>k. 2 * length s + 1 < k \<longrightarrow> parse_elements g k s acc = Some (v, r))"
proof -
  obtain v1 r1 where v1: "parse_value g n s = Some (v1, r1)"
    using pe by (cases "parse_value g n s") auto
  from ihV [OF v1] have l1: "length r1 < length s"
    and s1: "\<And>k. 2 * length s < k \<Longrightarrow> parse_value g k s = Some (v1, r1)"
    by simp_all
  obtain u r2 where r2: "skip_ws r1 = u # r2"
    using pe v1 by (cases "skip_ws r1") simp_all
  have l2: "length r2 < length r1"
    using r2 by (rule skip_ws_Cons_length)
  have fuel: "\<exists>k'. k = Suc k' \<and> 2 * length s < k' \<and> 2 * length r2 + 1 < k'"
    if "2 * length s + 1 < k" for k
    using that l1 l2 by (cases k) auto
  show ?thesis
  proof (cases "u = COMMA")
    case True
    have eq: "parse_elements g (Suc k) s acc = parse_elements g k r2 (acc @ [v1])"
      if "parse_value g k s = Some (v1, r1)" for k
      using that r2 True by simp
    have "parse_elements g n r2 (acc @ [v1]) = Some (v, r)"
      using pe eq [OF v1] by simp
    from ihE [OF this] have l3: "length r < length r2"
      and s2: "\<And>k. 2 * length r2 + 1 < k \<Longrightarrow> parse_elements g k r2 (acc @ [v1]) = Some (v, r)"
      by simp_all
    show ?thesis
    proof (intro conjI allI impI)
      show "length r < length s" using l1 l2 l3 by linarith
    next
      fix k assume "2 * length s + 1 < k"
      then obtain k' where k': "k = Suc k'" "2 * length s < k'" "2 * length r2 + 1 < k'"
        using fuel by blast
      show "parse_elements g k s acc = Some (v, r)"
        unfolding k'(1) using eq [OF s1 [OF k'(2)]] s2 [OF k'(3)] by simp
    qed
  next
    case False
    have eq: "parse_elements g (Suc k) s acc
              = (if u = RBRACKET then Some (JArray (acc @ [v1]), r2) else None)"
      if "parse_value g k s = Some (v1, r1)" for k
      using that r2 False by simp
    from pe eq [OF v1] have res: "u = RBRACKET" "v = JArray (acc @ [v1])" "r = r2"
      by (simp_all split: if_splits)
    show ?thesis
    proof (intro conjI allI impI)
      show "length r < length s" using l1 l2 res by simp
    next
      fix k assume "2 * length s + 1 < k"
      then obtain k' where k': "k = Suc k'" "2 * length s < k'" "2 * length r2 + 1 < k'"
        using fuel by blast
      show "parse_elements g k s acc = Some (v, r)"
        unfolding k'(1) using eq [OF s1 [OF k'(2)]] res by simp
    qed
  qed
qed

lemma parse_members_step:
  assumes ihV: "\<And>s v r. parse_value g n s = Some (v, r) \<Longrightarrow>
                  length r < length s
                  \<and> (\<forall>k. 2 * length s < k \<longrightarrow> parse_value g k s = Some (v, r))"
    and ihM: "\<And>s props v r. parse_members g n s props = Some (v, r) \<Longrightarrow>
                  length r < length s
                  \<and> (\<forall>k. 2 * length s + 1 < k \<longrightarrow> parse_members g k s props = Some (v, r))"
    and pm: "parse_members g (Suc n) s props = Some (v, r)"
  shows "length r < length s
         \<and> (\<forall>k. 2 * length s + 1 < k \<longrightarrow> parse_members g k s props = Some (v, r))"
proof -
  obtain q t where st: "skip_ws s = q # t"
    using pm by (cases "skip_ws s") simp_all
  have q: "q = QUOTE"
    using pm st by (simp split: if_splits)
  obtain key r1 where key: "parse_string t [] = Some (key, r1)"
    using pm st q by (cases "parse_string t []") auto
  obtain cl r2 where r2: "skip_ws r1 = cl # r2"
    using pm st q key by (cases "skip_ws r1") simp_all
  have cl: "cl = COLON"
    using pm st q key r2 by (simp split: if_splits)
  obtain v1 r3 where v1: "parse_value g n r2 = Some (v1, r3)"
    using pm st q key r2 cl by (cases "parse_value g n r2") auto
  obtain u r4 where r4: "skip_ws r3 = u # r4"
    using pm st q key r2 cl v1 by (cases "skip_ws r3") simp_all
  from ihV [OF v1] have l3: "length r3 < length r2"
    and s1: "\<And>k. 2 * length r2 < k \<Longrightarrow> parse_value g k r2 = Some (v1, r3)"
    by simp_all
  have l: "length t < length s" "length r1 < length t" "length r2 < length r1"
      "length r4 < length r3"
    using st key r2 r4 by (auto dest: skip_ws_Cons_length parse_string_shrink)
  have fuel: "\<exists>k'. k = Suc k' \<and> 2 * length r2 < k' \<and> 2 * length r4 + 1 < k'"
    if "2 * length s + 1 < k" for k
    using that l l3 by (cases k) auto
  show ?thesis
  proof (cases "u = COMMA")
    case True
    have eq: "parse_members g (Suc k) s props = parse_members g k r4 (obj_put props key v1)"
      if "parse_value g k r2 = Some (v1, r3)" for k
      using that st q key r2 cl r4 True by simp
    have "parse_members g n r4 (obj_put props key v1) = Some (v, r)"
      using pm eq [OF v1] by simp
    from ihM [OF this] have l4: "length r < length r4"
      and s2: "\<And>k. 2 * length r4 + 1 < k \<Longrightarrow>
             parse_members g k r4 (obj_put props key v1) = Some (v, r)"
      by simp_all
    show ?thesis
    proof (intro conjI allI impI)
      show "length r < length s" using l l3 l4 by linarith
    next
      fix k assume "2 * length s + 1 < k"
      then obtain k' where k': "k = Suc k'" "2 * length r2 < k'" "2 * length r4 + 1 < k'"
        using fuel by blast
      show "parse_members g k s props = Some (v, r)"
        unfolding k'(1) using eq [OF s1 [OF k'(2)]] s2 [OF k'(3)] by simp
    qed
  next
    case False
    have eq: "parse_members g (Suc k) s props
              = (if u = RBRACE then Some (JObject (obj_put props key v1), r4) else None)"
      if "parse_value g k r2 = Some (v1, r3)" for k
      using that st q key r2 cl r4 False by simp
    from pm eq [OF v1] have res: "u = RBRACE" "v = JObject (obj_put props key v1)" "r = r4"
      by (simp_all split: if_splits)
    show ?thesis
    proof (intro conjI allI impI)
      show "length r < length s" using l l3 res by simp
    next
      fix k assume "2 * length s + 1 < k"
      then obtain k' where k': "k = Suc k'" "2 * length r2 < k'" "2 * length r4 + 1 < k'"
        using fuel by blast
      show "parse_members g k s props = Some (v, r)"
        unfolding k'(1) using eq [OF s1 [OF k'(2)]] res by simp
    qed
  qed
qed

lemma parse_stable:
  "(\<forall>s v r. parse_value g n s = Some (v, r) \<longrightarrow>
      length r < length s \<and> (\<forall>k. 2 * length s < k \<longrightarrow> parse_value g k s = Some (v, r)))
   \<and> (\<forall>s acc v r. parse_elements g n s acc = Some (v, r) \<longrightarrow>
      length r < length s
      \<and> (\<forall>k. 2 * length s + 1 < k \<longrightarrow> parse_elements g k s acc = Some (v, r)))
   \<and> (\<forall>s props v r. parse_members g n s props = Some (v, r) \<longrightarrow>
      length r < length s
      \<and> (\<forall>k. 2 * length s + 1 < k \<longrightarrow> parse_members g k s props = Some (v, r)))"
proof (induction n)
  case 0
  show ?case by simp
next
  case (Suc n)
  have ihV: "length r < length s \<and> (\<forall>k. 2 * length s < k \<longrightarrow> parse_value g k s = Some (v, r))"
    if "parse_value g n s = Some (v, r)" for s v r
    using Suc that by blast
  have ihE: "length r < length s
      \<and> (\<forall>k. 2 * length s + 1 < k \<longrightarrow> parse_elements g k s acc = Some (v, r))"
    if "parse_elements g n s acc = Some (v, r)" for s acc v r
    using Suc that by blast
  have ihM: "length r < length s
      \<and> (\<forall>k. 2 * length s + 1 < k \<longrightarrow> parse_members g k s props = Some (v, r))"
    if "parse_members g n s props = Some (v, r)" for s props v r
    using Suc that by blast
  show ?case
  proof (intro conjI allI impI)
    fix s v r assume "parse_value g (Suc n) s = Some (v, r)"
    with ihE ihM
    have "length r < length s \<and> (\<forall>k. 2 * length s < k \<longrightarrow> parse_value g k s = Some (v, r))"
      by (rule parse_value_step)
    thus "length r < length s" "\<And>k. 2 * length s < k \<Longrightarrow> parse_value g k s = Some (v, r)"
      by simp_all
  next
    fix s acc v r assume "parse_elements g (Suc n) s acc = Some (v, r)"
    with ihV ihE
    have "length r < length s
      \<and> (\<forall>k. 2 * length s + 1 < k \<longrightarrow> parse_elements g k s acc = Some (v, r))"
      by (rule parse_elements_step)
    thus "length r < length s"
      "\<And>k. 2 * length s + 1 < k \<Longrightarrow> parse_elements g k s acc = Some (v, r)"
      by simp_all
  next
    fix s props v r assume "parse_members g (Suc n) s props = Some (v, r)"
    with ihV ihM
    have "length r < length s
      \<and> (\<forall>k. 2 * length s + 1 < k \<longrightarrow> parse_members g k s props = Some (v, r))"
      by (rule parse_members_step)
    thus "length r < length s"
      "\<And>k. 2 * length s + 1 < k \<Longrightarrow> parse_members g k s props = Some (v, r)"
      by simp_all
  qed
qed

lemma parse_value_fuel:
  "2 * length s < k \<Longrightarrow> parse_value g k s = parse_value g (2 * length s + 1) s"
proof -
  assume k: "2 * length s < k"
  have up: "parse_value g m s = Some x \<Longrightarrow> 2 * length s < m' \<Longrightarrow> parse_value g m' s = Some x"
    for m m' x
    using parse_stable [of g m] by (cases x) blast
  show ?thesis
  proof (cases "parse_value g k s")
    case None
    show ?thesis
    proof (cases "parse_value g (2 * length s + 1) s")
      case (Some x)
      hence "parse_value g k s = Some x" using k by (rule up)
      thus ?thesis using None by simp
    qed (simp add: None)
  next
    case (Some x)
    hence "parse_value g (2 * length s + 1) s = Some x" by (rule up) simp
    thus ?thesis using Some by simp
  qed
qed

lemma JSON_parse_fuel:
  "2 * length s < k \<Longrightarrow>
   JSON_parse g s =
     (case parse_value g k s of
        None \<Rightarrow> Inl SyntaxError
      | Some (v, r) \<Rightarrow> if skip_ws r = [] then Inr v else Inl SyntaxError)"
  by (simp add: JSON_parse_def parse_value_fuel)

subsection \<open>Round trip\<close>

lemma hex_value_hex_digit: "n < 16 \<Longrightarrow> hex_value (hex_digit n) = Some n"
proof -
  assume "n < 16"
  then consider "n < 10" | "10 \<le> n" "n < 16" by linarith
  then show ?thesis
  proof cases
    case 1
    then have "unat (of_nat (48 + n) :: code_unit) = 48 + n"
      by (subst unat_of_nat) simp
    with 1 show ?thesis by (simp add: hex_value_def hex_digit_def)
  next
    case 2
    then have "unat (of_nat (87 + n) :: code_unit) = 87 + n"
      by (subst unat_of_nat) simp
    with 2 show ?thesis by (simp add: hex_value_def hex_digit_def)
  qed
qed

lemma hex4_unicode_escape:
  "unicode_escape u = [e1, e2, h1, h2, h3, h4] \<Longrightarrow> hex4 h1 h2 h3 h4 = Some u"
proof -
  assume a: "unicode_escape u = [e1, e2, h1, h2, h3, h4]"
  let ?n = "unat u"
  have lt: "?n < 65536" using unsigned_less [of u, where ?'a = nat] by simp
  have h: "h1 = hex_digit (?n div 4096)" "h2 = hex_digit (?n div 256 mod 16)"
     "h3 = hex_digit (?n div 16 mod 16)" "h4 = hex_digit (?n mod 16)"
    using a by (simp_all add: unicode_escape_def Let_def)
  have "?n div 4096 < 16" using lt by simp
  hence v: "hex_value h1 = Some (?n div 4096)" "hex_value h2 = Some (?n div 256 mod 16)"
     "hex_value h3 = Some (?n div 16 mod 16)" "hex_value h4 = Some (?n mod 16)"
    unfolding h by (simp_all add: hex_value_hex_digit)
  have d1: "?n div 16 * 16 + ?n mod 16 = ?n"
    by (rule div_mult_mod_eq)
  have "?n div 16 div 16 * 16 + ?n div 16 mod 16 = ?n div 16"
    by (rule div_mult_mod_eq)
  hence d2: "?n div 256 * 16 + ?n div 16 mod 16 = ?n div 16"
    by (simp add: div_mult2_eq [symmetric])
  have "?n div 256 div 16 * 16 + ?n div 256 mod 16 = ?n div 256"
    by (rule div_mult_mod_eq)
  hence d3: "?n div 4096 * 16 + ?n div 256 mod 16 = ?n div 256"
    by (simp add: div_mult2_eq [symmetric])
  have "?n div 4096 * 4096 + ?n div 256 mod 16 * 256 + ?n div 16 mod 16 * 16 + ?n mod 16 = ?n"
    using d1 d2 d3 by linarith
  thus ?thesis
    by (simp add: hex4_def v)
qed


lemma parse_string_plain:
  "u \<noteq> QUOTE \<Longrightarrow> u \<noteq> BACKSLASH \<Longrightarrow> \<not> u < 0x20 \<Longrightarrow>
   parse_string (u # r) acc = parse_string r (acc @ [u])"
  by simp

lemma parse_string_simple_escape:
  "e \<noteq> 0x75 \<Longrightarrow> simple_escape e = Some x \<Longrightarrow>
   parse_string (BACKSLASH # e # r) acc = parse_string r (acc @ [x])"
  by simp

lemma parse_string_unicode_escape:
  "parse_string (unicode_escape u @ r) acc = parse_string r (acc @ [u])"
proof -
  obtain h1 h2 h3 h4 where e: "unicode_escape u = [BACKSLASH, 0x75, h1, h2, h3, h4]"
    by (simp add: unicode_escape_def Let_def)
  have "hex4 h1 h2 h3 h4 = Some u"
    using e by (rule hex4_unicode_escape)
  thus ?thesis
    unfolding e by simp
qed

lemma surrogate_plain:
  "is_lead u \<or> is_trail u \<Longrightarrow> u \<noteq> QUOTE \<and> u \<noteq> BACKSLASH \<and> \<not> u < 0x20"
  by (auto simp add: is_lead_def is_trail_def word_le_nat_alt word_less_nat_alt)

lemma parse_string_quote_units:
  "parse_string (quote_units s @ QUOTE # rest) acc = Some (acc @ s, rest)"
proof (induction s arbitrary: acc rule: quote_units.induct)
  case 1
  show ?case by simp
next
  case (2 u us)
  consider (bs) "u = 0x08" | (tab) "u = 0x09" | (nl) "u = 0x0A" | (ff) "u = 0x0C"
    | (cr) "u = 0x0D" | (quote) "u = QUOTE" | (backslash) "u = BACKSLASH"
    | (control) "u \<noteq> 0x08" "u \<noteq> 0x09" "u \<noteq> 0x0A" "u \<noteq> 0x0C" "u \<noteq> 0x0D" "u \<noteq> QUOTE"
        "u \<noteq> BACKSLASH" "u < 0x20"
    | (lone_end) "\<not> u < 0x20" "is_lead u" "us = []"
    | (pair) t ts where "\<not> u < 0x20" "is_lead u" "us = t # ts" "is_trail t"
    | (lone) t ts where "\<not> u < 0x20" "is_lead u" "us = t # ts" "\<not> is_trail t"
    | (trail) "\<not> u < 0x20" "\<not> is_lead u" "is_trail u"
    | (other) "u \<noteq> QUOTE" "u \<noteq> BACKSLASH" "\<not> u < 0x20" "\<not> is_lead u" "\<not> is_trail u"
    by (cases us) auto
  then show ?case
  proof cases
    case bs
    then show ?thesis using "2.IH"(1) by (simp add: simple_escape_def)
  next
    case tab
    then show ?thesis using "2.IH"(2) by (simp add: simple_escape_def)
  next
    case nl
    then show ?thesis using "2.IH"(3) by (simp add: simple_escape_def)
  next
    case ff
    then show ?thesis using "2.IH"(4) by (simp add: simple_escape_def)
  next
    case cr
    then show ?thesis using "2.IH"(5) by (simp add: simple_escape_def)
  next
    case quote
    then show ?thesis using "2.IH"(6) by (simp add: simple_escape_def)
  next
    case backslash
    then show ?thesis using "2.IH"(7) by (simp add: simple_escape_def)
  next
    case control
    then show ?thesis
      using "2.IH"(8) by (simp add: parse_string_unicode_escape)
  next
    case lone_end
    then have "u \<noteq> QUOTE \<and> u \<noteq> BACKSLASH \<and> \<not> u < 0x20"
      using surrogate_plain by blast
    hence "quote_units (u # us) = unicode_escape u"
      using lone_end by (auto simp add: word_less_nat_alt)
    then show ?thesis
      using lone_end by (simp only: parse_string_unicode_escape) simp
  next
    case pair
    have pu: "u \<noteq> QUOTE \<and> u \<noteq> BACKSLASH \<and> \<not> u < 0x20"
      and pt: "t \<noteq> QUOTE \<and> t \<noteq> BACKSLASH \<and> \<not> t < 0x20"
      using pair surrogate_plain by blast+
    have q: "quote_units (u # us) = u # t # quote_units ts"
      using pair pu by (auto simp add: word_less_nat_alt)
    have ih: "parse_string (quote_units ts @ QUOTE # rest) ((acc @ [u]) @ [t])
              = Some (((acc @ [u]) @ [t]) @ ts, rest)"
      using pair pu by (intro "2.IH"(9)) (auto simp add: word_less_nat_alt)
    show ?thesis
      unfolding q using pu pt ih pair(3) by (simp add: parse_string_plain)
  next
    case lone
    have pu: "u \<noteq> QUOTE \<and> u \<noteq> BACKSLASH \<and> \<not> u < 0x20"
      using lone surrogate_plain by blast
    have q: "quote_units (u # us) = unicode_escape u @ quote_units us"
      using lone pu by (auto simp add: word_less_nat_alt)
    have ih: "parse_string (quote_units us @ QUOTE # rest) (acc @ [u]) = Some ((acc @ [u]) @ us, rest)"
      using lone pu by (intro "2.IH"(10)) (auto simp add: word_less_nat_alt)
    show ?thesis
      unfolding q using ih by (simp add: parse_string_unicode_escape)
  next
    case trail
    have pu: "u \<noteq> QUOTE \<and> u \<noteq> BACKSLASH \<and> \<not> u < 0x20"
      using trail surrogate_plain by blast
    have q: "quote_units (u # us) = unicode_escape u @ quote_units us"
      using trail pu by (auto simp add: word_less_nat_alt)
    have ih: "parse_string (quote_units us @ QUOTE # rest) (acc @ [u]) = Some ((acc @ [u]) @ us, rest)"
      using trail pu by (intro "2.IH"(11)) (auto simp add: word_less_nat_alt)
    show ?thesis
      unfolding q using ih by (simp add: parse_string_unicode_escape)
  next
    case other
    have q: "quote_units (u # us) = u # quote_units us"
      using other by (auto simp add: word_less_nat_alt)
    have ih: "parse_string (quote_units us @ QUOTE # rest) (acc @ [u]) = Some ((acc @ [u]) @ us, rest)"
      using other by (intro "2.IH"(12)) (auto simp add: word_less_nat_alt)
    show ?thesis
      unfolding q using ih other by (simp add: parse_string_plain)
  qed
qed

lemma skip_ws_head: "\<not> is_json_ws u \<Longrightarrow> skip_ws (u # r) = u # r"
  by (simp add: skip_ws_def)

lemma stringify_head:
  "plain v \<Longrightarrow> \<exists>h t. stringify f v = h # t \<and> \<not> is_json_ws h \<and> h \<noteq> RBRACKET"
  by (cases v) (simp_all add: js_def QuoteJSONString_def is_json_ws_def)

lemma parse_value_Suc:
  "\<not> is_json_ws u \<Longrightarrow>
   parse_value g (Suc n) (u # r) =
     (if u = LBRACE then
        (case skip_ws r of
           [] \<Rightarrow> None
         | u' # r' \<Rightarrow> if u' = RBRACE then Some (JObject [], r') else parse_members g n r [])
      else if u = LBRACKET then
        (case skip_ws r of
           [] \<Rightarrow> None
         | u' # r' \<Rightarrow> if u' = RBRACKET then Some (JArray [], r') else parse_elements g n r [])
      else if u = QUOTE then map_option (\<lambda>(str, r'). (JString str, r')) (parse_string r [])
      else if u = 0x6E then map_option (Pair JNull) (strip_prefix (js ''null'') (u # r))
      else if u = 0x74 then map_option (Pair (JBool True)) (strip_prefix (js ''true'') (u # r))
      else if u = 0x66 then map_option (Pair (JBool False)) (strip_prefix (js ''false'') (u # r))
      else map_option (\<lambda>(lit, r'). (JNumber (g lit), r')) (scan_number (u # r)))"
  by (simp add: skip_ws_head)

lemma parse_elements_join:
  assumes ok: "\<And>v n rest. v \<in> set vs \<Longrightarrow> fuel_of v \<le> n \<Longrightarrow>
                 parse_value g n (stringify f v @ rest) = Some (v, rest)"
    and "vs \<noteq> []"
    and "sum_list (map (\<lambda>v. Suc (fuel_of v)) vs) \<le> n"
  shows "parse_elements g n (join_comma (map (stringify f) vs) @ RBRACKET # rest) acc
           = Some (JArray (acc @ vs), rest)"
  using assms
proof (induction vs arbitrary: n acc)
  case Nil
  then show ?case by simp
next
  case (Cons v ws)
  from Cons.prems(3) obtain k where n: "n = Suc k" and k: "fuel_of v \<le> k"
      "sum_list (map (\<lambda>v. Suc (fuel_of v)) ws) \<le> k"
    by (cases n) auto
  have ws_rule: "\<not> is_json_ws RBRACKET" "\<not> is_json_ws COMMA"
    by (simp_all add: is_json_ws_def)
  show ?case
  proof (cases ws)
    case Nil
    have "parse_value g k (stringify f v @ RBRACKET # rest) = Some (v, RBRACKET # rest)"
      using k(1) by (intro Cons.prems(1)) simp
    then show ?thesis
      unfolding n Nil by (simp add: skip_ws_head ws_rule)
  next
    case (Cons w ws')
    let ?tail = "join_comma (map (stringify f) ws) @ RBRACKET # rest"
    have v: "parse_value g k (stringify f v @ COMMA # ?tail) = Some (v, COMMA # ?tail)"
      using k(1) by (intro Cons.prems(1)) simp
    have "parse_elements g k ?tail (acc @ [v]) = Some (JArray ((acc @ [v]) @ ws), rest)"
      using Cons.prems(1) k(2) Cons by (intro Cons.IH) simp_all
    then show ?thesis
      unfolding n using v Cons by (simp add: skip_ws_head ws_rule)
  qed
qed

lemma obj_put_fresh:
  "k \<notin> fst ` set props \<Longrightarrow> \<not> is_array_index k \<Longrightarrow> obj_put props k v = props @ [(k, v)]"
  by (simp add: obj_put_def)

lemma parse_members_join:
  assumes ok: "\<And>kv n rest. kv \<in> set ms \<Longrightarrow> fuel_of (snd kv) \<le> n \<Longrightarrow>
                 parse_value g n (stringify f (snd kv) @ rest) = Some (snd kv, rest)"
    and "ms \<noteq> []"
    and "sum_list (map (\<lambda>kv. Suc (fuel_of (snd kv))) ms) \<le> n"
    and "distinct (map fst (acc @ ms))"
    and "\<forall>kv \<in> set ms. \<not> is_array_index (fst kv)"
  shows "parse_members g n
           (join_comma (map (\<lambda>kv. QuoteJSONString (fst kv) @ COLON # stringify f (snd kv)) ms)
              @ RBRACE # rest) acc
           = Some (JObject (acc @ ms), rest)"
  using assms
proof (induction ms arbitrary: n acc)
  case Nil
  then show ?case by simp
next
  case (Cons m ws)
  obtain key val where m: "m = (key, val)" by (cases m)
  from Cons.prems(3) obtain k where n: "n = Suc k" and k: "fuel_of val \<le> k"
      "sum_list (map (\<lambda>kv. Suc (fuel_of (snd kv))) ws) \<le> k"
    by (cases n) (auto simp add: m)
  have ws_rule: "\<not> is_json_ws RBRACE" "\<not> is_json_ws COMMA" "\<not> is_json_ws COLON"
      "\<not> is_json_ws QUOTE"
    by (simp_all add: is_json_ws_def)
  have put: "obj_put acc key val = acc @ [(key, val)]"
    using Cons.prems(4,5) by (intro obj_put_fresh) (auto simp add: m)
  have key: "parse_string (quote_units key @ QUOTE # r) [] = Some (key, r)" for r
    using parse_string_quote_units [of key r "[]"] by simp
  show ?case
  proof (cases ws)
    case Nil
    have "parse_value g k (stringify f val @ RBRACE # rest) = Some (val, RBRACE # rest)"
      using k(1) Cons.prems(1) [of m k "RBRACE # rest"] by (simp add: m)
    then show ?thesis
      unfolding n Nil by (simp add: m QuoteJSONString_def skip_ws_head ws_rule key put)
  next
    case (Cons w ws')
    let ?tail = "join_comma (map (\<lambda>kv. QuoteJSONString (fst kv) @ COLON # stringify f (snd kv)) ws)
                   @ RBRACE # rest"
    have v: "parse_value g k (stringify f val @ COMMA # ?tail) = Some (val, COMMA # ?tail)"
      using k(1) Cons.prems(1) [of m k "COMMA # ?tail"] by (simp add: m)
    have "parse_members g k ?tail (acc @ [m]) = Some (JObject ((acc @ [m]) @ ws), rest)"
      using Cons.prems k(2) Cons by (intro Cons.IH) simp_all
    then show ?thesis
      unfolding n using v Cons by (simp add: m QuoteJSONString_def skip_ws_head ws_rule key put)
  qed
qed

lemma strip_prefix_append: "strip_prefix xs (xs @ r) = Some r"
  by (induction xs) simp_all

lemma parse_value_stringify:
  "plain v \<Longrightarrow> fuel_of v \<le> n \<Longrightarrow> parse_value g n (stringify f v @ rest) = Some (v, rest)"
proof (induction v arbitrary: n rest)
  case JNull
  then obtain k where n: "n = Suc k" by (cases n) auto
  have "stringify f JNull @ rest = 0x6E # js ''ull'' @ rest"
    by (simp add: js_def)
  moreover have "strip_prefix (js ''null'') (0x6E # js ''ull'' @ rest) = Some rest"
    using strip_prefix_append [of "js ''null''" rest] by (simp add: js_def)
  ultimately show ?case
    unfolding n by (simp add: parse_value_Suc is_json_ws_def skip_ws_head)
next
  case (JBool x)
  then obtain k where n: "n = Suc k" by (cases n) auto
  show ?case
  proof (cases x)
    case True
    have "stringify f (JBool x) @ rest = 0x74 # js ''rue'' @ rest"
      using True by (simp add: js_def)
    moreover have "strip_prefix (js ''true'') (0x74 # js ''rue'' @ rest) = Some rest"
      using strip_prefix_append [of "js ''true''" rest] by (simp add: js_def)
    ultimately show ?thesis
      unfolding n using True by (simp add: parse_value_Suc is_json_ws_def skip_ws_head)
  next
    case False
    have "stringify f (JBool x) @ rest = 0x66 # js ''alse'' @ rest"
      using False by (simp add: js_def)
    moreover have "strip_prefix (js ''false'') (0x66 # js ''alse'' @ rest) = Some rest"
      using strip_prefix_append [of "js ''false''" rest] by (simp add: js_def)
    ultimately show ?thesis
      unfolding n using False by (simp add: parse_value_Suc is_json_ws_def skip_ws_head)
  qed
next
  case (JNumber x)
  then show ?case by simp
next
  case (JString s)
  then obtain k where n: "n = Suc k" by (cases n) auto
  have "parse_string (quote_units s @ QUOTE # rest) [] = Some (s, rest)"
    using parse_string_quote_units [of s rest "[]"] by simp
  then show ?case
    unfolding n by (simp add: QuoteJSONString_def parse_value_Suc is_json_ws_def skip_ws_head)
next
  case (JArray vs)
  then obtain k where n: "n = Suc k" and k: "sum_list (map (\<lambda>v. Suc (fuel_of v)) vs) \<le> k"
    by (cases n) auto
  show ?case
  proof (cases vs)
    case Nil
    then show ?thesis
      unfolding n by (simp add: parse_value_Suc is_json_ws_def skip_ws_head)
  next
    case (Cons w ws)
    have "plain w" using JArray.prems(1) Cons by simp
    then obtain h t where h: "stringify f w = h # t" "\<not> is_json_ws h" "h \<noteq> RBRACKET"
      using stringify_head by blast
    let ?body = "join_comma (map (stringify f) vs) @ RBRACKET # rest"
    have "\<exists>t'. ?body = h # t'"
      using Cons h(1) by (cases ws) simp_all
    then obtain t' where body: "?body = h # t'" ..
    have elems: "parse_elements g k ?body [] = Some (JArray ([] @ vs), rest)"
      using JArray.IH JArray.prems(1) Cons k by (intro parse_elements_join) auto
    have "parse_value g (Suc k) (LBRACKET # ?body) = parse_elements g k ?body []"
      unfolding body using h(2,3) by (simp add: parse_value_Suc is_json_ws_def skip_ws_head)
    then show ?thesis
      unfolding n using elems by simp
  qed
next
  case (JObject ps)
  then obtain k where n: "n = Suc k"
    and k: "sum_list (map (\<lambda>kv. Suc (fuel_of (snd kv))) ps) \<le> k"
    by (cases n) auto
  show ?case
  proof (cases ps)
    case Nil
    then show ?thesis
      unfolding n by (simp add: parse_value_Suc is_json_ws_def skip_ws_head)
  next
    case (Cons m ms)
    let ?body = "join_comma (map (\<lambda>kv. QuoteJSONString (fst kv) @ COLON # stringify f (snd kv)) ps)
                   @ RBRACE # rest"
    have "\<exists>t'. ?body = QUOTE # t'"
      using Cons by (cases ms) (simp_all add: QuoteJSONString_def)
    then obtain t' where body: "?body = QUOTE # t'" ..
    have ih: "parse_value g n' (stringify f (snd kv) @ rest') = Some (snd kv, rest')"
      if "kv \<in> set ps" "fuel_of (snd kv) \<le> n'" for kv n' rest'
    proof -
      have "snd kv \<in> Basic_BNFs.snds kv" by (cases kv) simp
      moreover have "plain (snd kv)" using JObject.prems(1) that(1) by simp
      ultimately show ?thesis using JObject.IH that by blast
    qed
    have members: "parse_members g k ?body [] = Some (JObject ([] @ ps), rest)"
      using ih JObject.prems(1) Cons k by (intro parse_members_join) auto
    have "parse_value g (Suc k) (LBRACE # ?body) = parse_members g k ?body []"
      unfolding body by (simp add: parse_value_Suc is_json_ws_def skip_ws_head)
    then show ?thesis
      unfolding n using members by simp
  qed
qed

lemma length_join_comma:
  "xs \<noteq> [] \<Longrightarrow> Suc (length (join_comma xs)) = sum_list (map (\<lambda>x. Suc (length x)) xs)"
  by (induction xs rule: join_comma.induct) simp_all

lemma fuel_of_le_length: "plain v \<Longrightarrow> fuel_of v \<le> length (stringify f v)"
proof (induction v)
  case (JArray vs)
  show ?case
  proof (cases "vs = []")
    case True
    then show ?thesis by simp
  next
    case False
    have "sum_list (map (\<lambda>v. Suc (fuel_of v)) vs)
          \<le> sum_list (map (\<lambda>x. Suc (length x)) (map (stringify f) vs))"
      unfolding map_map comp_def using JArray by (intro sum_list_mono) auto
    also have "\<dots> = Suc (length (join_comma (map (stringify f) vs)))"
      using False by (simp add: length_join_comma)
    finally show ?thesis by simp
  qed
next
  case (JObject ps)
  show ?case
  proof (cases "ps = []")
    case True
    then show ?thesis by simp
  next
    case False
    let ?member = "\<lambda>kv. QuoteJSONString (fst kv) @ COLON # stringify f (snd kv)"
    have "fuel_of (snd kv) \<le> length (stringify f (snd kv))" if "kv \<in> set ps" for kv
    proof -
      have "snd kv \<in> Basic_BNFs.snds kv" by (cases kv) simp
      moreover have "plain (snd kv)" using JObject.prems that by simp
      ultimately show ?thesis using JObject.IH that by blast
    qed
    hence "sum_list (map (\<lambda>kv. Suc (fuel_of (snd kv))) ps)
          \<le> sum_list (map (\<lambda>x. Suc (length x)) (map ?member ps))"
      unfolding map_map comp_def by (intro sum_list_mono) (auto intro: le_SucI trans_le_add2)
    also have "\<dots> = Suc (length (join_comma (map ?member ps)))"
      using False by (simp add: length_join_comma)
    finally show ?thesis by simp
  qed
qed (simp_all add: js_def QuoteJSONString_def)

lemma JSON_parse_stringify: "plain v \<Longrightarrow> JSON_parse g (JSON_stringify f v) = Inr v"
proof -
  assume p: "plain v"
  have "fuel_of v \<le> 2 * length (stringify f v) + 1"
    using fuel_of_le_length [OF p, of f] by simp
  hence "parse_value g (2 * length (stringify f v) + 1) (stringify f v @ []) = Some (v, [])"
    using p by (rule parse_value_stringify [rotated])
  thus ?thesis
    by (simp add: JSON_parse_def JSON_stringify_def skip_ws_def)
qed

lemma plain_proof_value: "plain (proof_value p :: 'n json)"
  by (simp add: proof_value_def js_def is_array_index_def is_digit_def)

lemma serializeProof_example:
  \<open>serializeProof f (proof_value example_proof) =
     js ''{"pi_a":["1","2","1"],"pi_b":[["3","4"],["1","2"],["1","0"]],"pi_c":["4","3","1"],"protocol":"groth16","curve":"bn128"}''\<close>
  by (simp add: serializeProof_def JSON_stringify_def proof_value_def example_proof_def
      QuoteJSONString_def js_def is_lead_def is_trail_def)

text \<open>
  Claim C8. Deserializing the serialization of a proof value gives the proof value back,
  and serializing what was deserialized from a serialized proof gives the same string back.
\<close>

theorem deserializeProof_serializeProof:
  "deserializeProof g (serializeProof f (proof_value p)) = Inr (proof_value p)
   \<and> (\<exists>v. deserializeProof g (serializeProof f (proof_value p)) = Inr v
          \<and> serializeProof f v = serializeProof f (proof_value p))"
  by (simp add: deserializeProof_def serializeProof_def JSON_parse_stringify plain_proof_value)

theorem deserializeProof_serializeProof_witness:
  \<open>deserializeProof (\<lambda>literal. ())
     (js ''{"pi_a":["1","2","1"],"pi_b":[["3","4"],["1","2"],["1","0"]],"pi_c":["4","3","1"],"protocol":"groth16","curve":"bn128"}'')
   = Inr (proof_value example_proof)\<close>
  using deserializeProof_serializeProof [of "\<lambda>literal. ()" "\<lambda>n. []" example_proof]
  unfolding serializeProof_example by simp

end
